theory Spec2Isabelle
  imports Main
begin

section \<open>The life-stage annotation field of elegant (gui/stage\_field.py)\<close>

text \<open>
  \<^verbatim>\<open>StageField\<close> labels every page of a flipbook with a life stage and keeps the labels
  ordered.  The embedding below follows the Python source statement by statement.
  Exceptions are values of type \<open>error\<close>; an operation that mutates pages returns the
  pages as they are when it returns or raises, so a partial mutation stays visible.

  What the source takes from its host (ris\_widget and Qt) is modelled as the accessor
  contract the source relies on: \<^verbatim>\<open>get_annotation(page)\<close> reads
  \<^verbatim>\<open>page.annotations.get(self.name)\<close>, \<^verbatim>\<open>update_annotation(value)\<close> writes
  \<^verbatim>\<open>self.page.annotations[self.name]\<close>, and the text of the \<^verbatim>\<open>QLabel\<close> is a string.
  The pages of a flipbook are distinct objects, so the flipbook is a list of page values
  and the current page is given by its index in that list.
\<close>

subsection \<open>Python values\<close>

datatype error = AssertionError | IndexError | KeyError | ValueError

type_synonym color = "nat \<times> nat \<times> nat"

text \<open>\<^verbatim>\<open>xs[i]\<close> on a list: a negative index counts from the end, out of range raises.\<close>

definition py_index :: "'a list \<Rightarrow> int \<Rightarrow> error + 'a" where
  "py_index xs i =
     (if 0 \<le> i \<and> i < int (length xs) then Inr (xs ! nat i)
      else if i < 0 \<and> - int (length xs) \<le> i then Inr (xs ! nat (int (length xs) + i))
      else Inl IndexError)"

text \<open>\<^verbatim>\<open>d.update(pairs)\<close>: the pairs are stored in order, a later pair overwrites.\<close>

definition dict_update :: "('k \<rightharpoonup> 'v) \<Rightarrow> ('k \<times> 'v) list \<Rightarrow> ('k \<rightharpoonup> 'v)" where
  "dict_update d kvs = fold (\<lambda>(k, v) m. m(k \<mapsto> v)) kvs d"

subsection \<open>Class attributes\<close>

definition FIRST_COLOR :: color where
  "FIRST_COLOR = (255, 255, 255)"

definition LAST_COLOR :: color where
  "LAST_COLOR = (184, 184, 184)"

text \<open>
  \<^verbatim>\<open>COLOR_CYCLE = itertools.cycle([...])\<close> is one iterator shared by the class.  Its state
  is the number of colours drawn from it so far; \<open>cycle_next\<close> is \<^verbatim>\<open>next(COLOR_CYCLE)\<close>.
\<close>

definition COLOR_CYCLE_colors :: "color list" where
  "COLOR_CYCLE_colors =
     [(184, 255, 184), (255, 255, 184), (184, 184, 255), (255, 184, 184), (255, 184, 255)]"

definition cycle_next :: "nat \<Rightarrow> color \<times> nat" where
  "cycle_next n = (COLOR_CYCLE_colors ! (n mod length COLOR_CYCLE_colors), Suc n)"

text \<open>
  \<^verbatim>\<open>zip(names, COLOR_CYCLE)\<close>: \<^verbatim>\<open>zip\<close> asks its first argument first and stops when that
  is exhausted, so exactly one colour is drawn for each name.
\<close>

fun zip_cycle :: "string list \<Rightarrow> nat \<Rightarrow> (string \<times> color) list \<times> nat" where
  "zip_cycle [] n = ([], n)"
| "zip_cycle (s # ss) n =
     (case cycle_next n of (c, n') \<Rightarrow>
        (case zip_cycle ss n' of (kvs, n'') \<Rightarrow> ((s, c) # kvs, n'')))"

subsection \<open>The field and its construction\<close>

record stage_field =
  name :: string
  stages :: "string list"
  stage_indices :: "string \<rightharpoonup> int"
  transitions :: "string list"
  shortcuts :: "string list"
  colors :: "string \<rightharpoonup> color"

text \<open>\<^verbatim>\<open>{stage: i for i, stage in enumerate(stages)}\<close>: a repeated name keeps its last index.\<close>

definition make_stage_indices :: "string list \<Rightarrow> (string \<rightharpoonup> int)" where
  "make_stage_indices stgs = dict_update Map.empty (zip stgs (map int [0..<length stgs]))"

text \<open>\<^verbatim>\<open>[transition[0] for transition in transitions]\<close>: the empty string has no first letter.\<close>

fun first_letters :: "string list \<Rightarrow> error + string list" where
  "first_letters [] = Inr []"
| "first_letters (t # ts) =
     (case t of
        [] \<Rightarrow> Inl IndexError
      | c # _ \<Rightarrow> (case first_letters ts of Inl e \<Rightarrow> Inl e | Inr ks \<Rightarrow> Inr ([c] # ks)))"

text \<open>
  \<^verbatim>\<open>__init__(self, name, stages, transitions, shortcuts)\<close>.  The last argument is the
  state of the shared colour cycle when the constructor starts; the new state is returned
  with the field.  \<^verbatim>\<open>stages[1:-1]\<close> is \<open>butlast (tl stgs)\<close>.  The host's
  \<^verbatim>\<open>super().__init__(name)\<close> stores the name and builds the Qt widget.
\<close>

definition StageField_init ::
  "string \<Rightarrow> string list \<Rightarrow> string list \<Rightarrow> string list option \<Rightarrow> nat
     \<Rightarrow> error + (stage_field \<times> nat)" where
  "StageField_init nm stgs trns shortcuts_arg cyc =
     (if int (length trns) \<noteq> int (length stgs) - 1 then Inl AssertionError
      else
        case (case shortcuts_arg of None \<Rightarrow> first_letters trns | Some ks \<Rightarrow> Inr ks) of
          Inl e \<Rightarrow> Inl e
        | Inr ks \<Rightarrow>
            (case py_index stgs 0 of
               Inl e \<Rightarrow> Inl e
             | Inr s0 \<Rightarrow>
                 (case py_index stgs (- 1) of
                    Inl e \<Rightarrow> Inl e
                  | Inr sl \<Rightarrow>
                      (case zip_cycle (butlast (tl stgs)) cyc of
                         (kvs, cyc') \<Rightarrow>
                           Inr (\<lparr>name = nm,
                                 stages = stgs,
                                 stage_indices = make_stage_indices stgs,
                                 transitions = trns,
                                 shortcuts = ks,
                                 colors =
                                   dict_update ((Map.empty(s0 \<mapsto> FIRST_COLOR))(sl \<mapsto> LAST_COLOR)) kvs\<rparr>,
                                cyc')))))"

subsection \<open>Pages and the widget\<close>

record page =
  annotations :: "string \<rightharpoonup> string"
  color :: "color option"

record gui =
  pages :: "page list"
  label_text :: string

definition get_annotation :: "stage_field \<Rightarrow> page \<Rightarrow> string option" where
  "get_annotation f p = annotations p (name f)"

definition set_annotation :: "stage_field \<Rightarrow> string \<Rightarrow> page \<Rightarrow> page" where
  "set_annotation f s p = p\<lparr>annotations := (annotations p)(name f \<mapsto> s)\<rparr>"

text \<open>\<^verbatim>\<open>self.stage_indices.get(page_stage, default)\<close>, where \<^verbatim>\<open>page_stage\<close> may be \<^verbatim>\<open>None\<close>.\<close>

definition stage_index_get :: "stage_field \<Rightarrow> string option \<Rightarrow> int \<Rightarrow> int" where
  "stage_index_get f page_stage dflt =
     (case page_stage of
        None \<Rightarrow> dflt
      | Some s \<Rightarrow> (case stage_indices f s of None \<Rightarrow> dflt | Some i \<Rightarrow> i))"

subsection \<open>update\_widget\<close>

text \<open>
  The tail of the loop body: \<^verbatim>\<open>page.color = None\<close> for no stage, otherwise
  \<^verbatim>\<open>page.color = self.colors[page_stage]\<close>, which raises on a missing key.
\<close>

definition set_page_color ::
  "stage_field \<Rightarrow> int \<Rightarrow> string option \<Rightarrow> page \<Rightarrow> error option \<times> int \<times> page" where
  "set_page_color f oldest_stage_i page_stage p =
     (case page_stage of
        None \<Rightarrow> (None, oldest_stage_i, p\<lparr>color := None\<rparr>)
      | Some s \<Rightarrow>
          (case colors f s of
             None \<Rightarrow> (Some KeyError, oldest_stage_i, p)
           | Some c \<Rightarrow> (None, oldest_stage_i, p\<lparr>color := Some c\<rparr>)))"

text \<open>One iteration of the loop of \<^verbatim>\<open>update_widget\<close> on one page.\<close>

definition update_page ::
  "stage_field \<Rightarrow> int \<Rightarrow> page \<Rightarrow> error option \<times> int \<times> page" where
  "update_page f oldest_stage_i p =
     (let page_stage = get_annotation f p;
          page_stage_i = stage_index_get f page_stage (- 1)
      in if page_stage_i > oldest_stage_i then
           set_page_color f page_stage_i page_stage p
         else if page_stage_i < oldest_stage_i then
           (case py_index (stages f) oldest_stage_i of
              Inl e \<Rightarrow> (Some e, oldest_stage_i, p)
            | Inr s \<Rightarrow> set_page_color f oldest_stage_i (Some s) (set_annotation f s p))
         else set_page_color f oldest_stage_i page_stage p)"

text \<open>\<^verbatim>\<open>for page in self.flipbook.pages\<close>: an exception leaves the later pages as they were.\<close>

fun update_pages :: "stage_field \<Rightarrow> int \<Rightarrow> page list \<Rightarrow> error option \<times> page list" where
  "update_pages f oldest_stage_i [] = (None, [])"
| "update_pages f oldest_stage_i (p # ps) =
     (case update_page f oldest_stage_i p of
        (Some e, _, p') \<Rightarrow> (Some e, p' # ps)
      | (None, oldest', p') \<Rightarrow>
          (case update_pages f oldest' ps of (r, ps') \<Rightarrow> (r, p' # ps')))"

definition update_widget :: "stage_field \<Rightarrow> string option \<Rightarrow> gui \<Rightarrow> error option \<times> gui" where
  "update_widget f val g =
     (case val of
        None \<Rightarrow>
          (case update_pages f (- 1) (pages g) of
             (r, ps') \<Rightarrow> (r, \<lparr>pages = ps', label_text = []\<rparr>))
      | Some v \<Rightarrow>
          if v \<notin> set (stages f) then (Some ValueError, g)
          else
            (case update_pages f (- 1) (pages g) of
               (r, ps') \<Rightarrow> (r, \<lparr>pages = ps', label_text = v\<rparr>)))"

subsection \<open>set\_stage\<close>

text \<open>
  The loop over \<^verbatim>\<open>self.flipbook.pages[fb_i-1::-1]\<close>; its argument is that slice, the
  pages before the current one, nearest first.
\<close>

fun fix_previous :: "stage_field \<Rightarrow> int \<Rightarrow> page list \<Rightarrow> error option \<times> page list" where
  "fix_previous f youngest_stage_i [] = (None, [])"
| "fix_previous f youngest_stage_i (p # ps) =
     (let page_stage = get_annotation f p;
          page_stage_i = stage_index_get f page_stage (int (length (stages f)))
      in if page_stage_i < youngest_stage_i then
           (case fix_previous f page_stage_i ps of (r, ps') \<Rightarrow> (r, p # ps'))
         else
           (case py_index (stages f) youngest_stage_i of
              Inl e \<Rightarrow> (Some e, p # ps)
            | Inr s \<Rightarrow>
                (case fix_previous f youngest_stage_i ps of
                   (r, ps') \<Rightarrow> (r, set_annotation f s p # ps'))))"

text \<open>
  The backward pass of \<^verbatim>\<open>set_stage\<close>, lines 57 to 66, on the whole page list:
  \<open>fb_i\<close> is the index of the current page.
\<close>

definition backward_pass ::
  "stage_field \<Rightarrow> int \<Rightarrow> nat \<Rightarrow> page list \<Rightarrow> error option \<times> page list" where
  "backward_pass f youngest_stage_i fb_i ps =
     (if fb_i > 0 then
        (case fix_previous f youngest_stage_i (rev (take fb_i ps)) of
           (r, qs) \<Rightarrow> (r, rev qs @ drop fb_i ps))
      else (None, ps))"

text \<open>
  \<^verbatim>\<open>set_stage(stage)\<close> with the current page at index \<open>cur\<close>.  A current page that is not
  in the flipbook makes \<^verbatim>\<open>pages.index\<close> raise.
\<close>

definition set_stage :: "stage_field \<Rightarrow> string \<Rightarrow> nat \<Rightarrow> gui \<Rightarrow> error option \<times> gui" where
  "set_stage f stage cur g =
     (if cur \<ge> length (pages g) then (Some ValueError, g)
      else
        let g1 = g\<lparr>pages := (pages g)[cur := set_annotation f stage (pages g ! cur)]\<rparr>
        in case stage_indices f stage of
             None \<Rightarrow> (Some KeyError, g1)
           | Some i \<Rightarrow>
               (case backward_pass f (i - 1) cur (pages g1) of
                  (Some e, ps') \<Rightarrow> (Some e, g1\<lparr>pages := ps'\<rparr>)
                | (None, ps') \<Rightarrow> update_widget f (Some stage) (g1\<lparr>pages := ps'\<rparr>)))"

text \<open>A series of \<^verbatim>\<open>set_stage\<close> calls, each on its own current page; an exception ends it.\<close>

fun set_stages :: "stage_field \<Rightarrow> (nat \<times> string) list \<Rightarrow> gui \<Rightarrow> error option \<times> gui" where
  "set_stages f [] g = (None, g)"
| "set_stages f ((cur, stage) # calls) g =
     (case set_stage f stage cur g of
        (Some e, g') \<Rightarrow> (Some e, g')
      | (None, g') \<Rightarrow> set_stages f calls g')"

subsection \<open>The field built from the source's default arguments\<close>

text \<open>
  \<^verbatim>\<open>StageField()\<close> with the defaults of the source, built first in its process (no colour
  drawn from the cycle yet).
\<close>

definition default_field :: stage_field where
  "default_field =
     \<lparr>name = ''stage'',
      stages = [''egg'', ''larva'', ''adult'', ''dead''],
      stage_indices = make_stage_indices [''egg'', ''larva'', ''adult'', ''dead''],
      transitions = [''hatch'', ''adult'', ''dead''],
      shortcuts = [''h'', ''a'', ''d''],
      colors = [''egg'' \<mapsto> FIRST_COLOR, ''dead'' \<mapsto> LAST_COLOR,
                ''larva'' \<mapsto> (184, 255, 184), ''adult'' \<mapsto> (255, 255, 184)]\<rparr>"

text \<open>The colour a construction gives to a stage name, or the error of the construction.\<close>

definition built_color :: "error + (stage_field \<times> nat) \<Rightarrow> string \<Rightarrow> error + color option" where
  "built_color r s = (case r of Inl e \<Rightarrow> Inl e | Inr (f, _) \<Rightarrow> Inr (colors f s))"

subsection \<open>Invariants used in the proofs\<close>

text \<open>
  What the constructor establishes and no method changes: the index dict is the one built
  from the stage list, and every stage name has a colour.
\<close>

definition field_ok :: "stage_field \<Rightarrow> bool" where
  "field_ok f \<longleftrightarrow>
     stage_indices f = make_stage_indices (stages f) \<and> dom (colors f) = set (stages f)"

text \<open>
  The values \<^verbatim>\<open>oldest_stage_i\<close> takes in \<^verbatim>\<open>update_widget\<close>: the start value or the
  index of a stage.
\<close>

definition seen_index :: "stage_field \<Rightarrow> int \<Rightarrow> bool" where
  "seen_index f i \<longleftrightarrow> i = - 1 \<or> (\<exists>s. stage_indices f s = Some i)"

text \<open>\<^verbatim>\<open>page_stage_i\<close> as \<^verbatim>\<open>update_widget\<close> computes it: no stage counts as \<open>-1\<close>.\<close>

definition page_stage_i_low :: "stage_field \<Rightarrow> page \<Rightarrow> int" where
  "page_stage_i_low f p = stage_index_get f (get_annotation f p) (- 1)"

text \<open>\<^verbatim>\<open>page_stage_i\<close> as \<^verbatim>\<open>set_stage\<close> computes it: no stage counts as \<^verbatim>\<open>len(stages)\<close>.\<close>

definition page_stage_i_high :: "stage_field \<Rightarrow> page \<Rightarrow> int" where
  "page_stage_i_high f p = stage_index_get f (get_annotation f p) (int (length (stages f)))"

subsection \<open>Example pages\<close>

text \<open>A page without annotations, and a page whose \<^verbatim>\<open>'stage'\<close> annotation is set.\<close>

definition unset_page :: page where
  "unset_page = \<lparr>annotations = Map.empty, color = None\<rparr>"

definition staged_page :: "string \<Rightarrow> page" where
  "staged_page s = \<lparr>annotations = [''stage'' \<mapsto> s], color = None\<rparr>"

definition example_gui :: gui where
  "example_gui = \<lparr>pages = [unset_page, staged_page ''larva'', unset_page], label_text = []\<rparr>"

text \<open>A flipbook under review: adult, egg, and two pages without a label.\<close>

definition review_gui :: gui where
  "review_gui =
     \<lparr>pages = [staged_page ''adult'', staged_page ''egg'', unset_page, unset_page],
      label_text = []\<rparr>"

text \<open>A flipbook whose first label is no stage name: zombie, larva, and a page without a label.\<close>

definition mislabelled_gui :: gui where
  "mislabelled_gui =
     \<lparr>pages = [staged_page ''zombie'', staged_page ''larva'', unset_page], label_text = []\<rparr>"

subsection \<open>The properties as the specification words them\<close>

text \<open>
  The youngest-allowed index of the specification's backward pass.  It starts at \<open>y0\<close>;
  the pass visits the pages before the current page \<open>fb_i\<close> in reverse order, and a visited
  page whose stage position (no stage counting as \<^verbatim>\<open>len(stages)\<close>) is strictly less lowers
  it to that position.  \<open>youngest_allowed f y0 fb_i ps j\<close> is its value when page \<open>j\<close> is
  reached, after the pages \<open>fb_i - 1, \<dots>, j + 1\<close>.
\<close>

definition lower_youngest :: "stage_field \<Rightarrow> page \<Rightarrow> int \<Rightarrow> int" where
  "lower_youngest f p y = (if page_stage_i_high f p < y then page_stage_i_high f p else y)"

definition youngest_allowed :: "stage_field \<Rightarrow> int \<Rightarrow> nat \<Rightarrow> page list \<Rightarrow> nat \<Rightarrow> int" where
  "youngest_allowed f y0 fb_i ps j =
     fold (lower_youngest f) (rev (drop (Suc j) (take fb_i ps))) y0"

text \<open>
  The monotonicity invariant: of two adjacent pages that both have a label, both labels
  are stages and the position of the first is at most the position of the second.
\<close>

definition stage_order :: "stage_field \<Rightarrow> page list \<Rightarrow> bool" where
  "stage_order f ps \<longleftrightarrow>
     (\<forall>i. Suc i < length ps \<longrightarrow>
        (\<forall>a b. get_annotation f (ps ! i) = Some a \<longrightarrow> get_annotation f (ps ! Suc i) = Some b \<longrightarrow>
           (\<exists>m n. stage_indices f a = Some m \<and> stage_indices f b = Some n \<and> m \<le> n)))"

section \<open>Dictionaries, stage indices and the colour cycle\<close>

lemma dict_update_apply:
  "dict_update d kvs k = (case map_of (rev kvs) k of None \<Rightarrow> d k | Some v \<Rightarrow> Some v)"
proof (induction kvs arbitrary: d)
  case Nil
  show ?case by (simp add: dict_update_def)
next
  case (Cons kv kvs)
  obtain a b where kv: "kv = (a, b)" by (cases kv)
  have "dict_update d (kv # kvs) k = dict_update (d(a \<mapsto> b)) kvs k"
    by (simp add: dict_update_def kv)
  also have "\<dots> = (case map_of (rev kvs) k of None \<Rightarrow> (d(a \<mapsto> b)) k | Some v \<Rightarrow> Some v)"
    by (rule Cons.IH)
  finally show ?case
    by (simp add: kv map_add_def split: option.splits)
qed

lemma dom_dict_update: "dom (dict_update d kvs) = dom d \<union> fst ` set kvs"
proof -
  have "\<And>k. (map_of (rev kvs) k = None) = (k \<notin> fst ` set kvs)"
    by (simp add: map_of_eq_None_iff)
  then show ?thesis
    by (auto simp: dom_def dict_update_apply split: option.splits)
qed

lemma make_stage_indices_Some:
  assumes "make_stage_indices stgs s = Some i"
  shows "0 \<le> i \<and> i < int (length stgs) \<and> stgs ! nat i = s"
proof -
  from assms have "map_of (rev (zip stgs (map int [0..<length stgs]))) s = Some i"
    by (simp add: make_stage_indices_def dict_update_apply split: option.splits)
  then have "(s, i) \<in> set (zip stgs (map int [0..<length stgs]))"
    by (auto dest: map_of_SomeD)
  then obtain j where "j < length stgs" "stgs ! j = s" "i = int j"
    by (auto simp: set_zip)
  then show ?thesis by simp
qed

lemma make_stage_indices_None: "(make_stage_indices stgs s = None) = (s \<notin> set stgs)"
proof -
  have "map fst (zip stgs (map int [0..<length stgs])) = stgs"
    by simp
  then have "set (map fst (zip stgs (map int [0..<length stgs]))) = set stgs"
    by (rule arg_cong)
  then have "fst ` set (zip stgs (map int [0..<length stgs])) = set stgs"
    by (simp only: set_map)
  then have "dom (make_stage_indices stgs) = set stgs"
    by (simp add: make_stage_indices_def dom_dict_update)
  then have "(s \<in> dom (make_stage_indices stgs)) = (s \<in> set stgs)"
    by simp
  then show ?thesis by (cases "make_stage_indices stgs s") (auto simp: domIff)
qed

lemma zip_cycle_eq:
  "zip_cycle ss n =
     (zip ss (map (\<lambda>k. COLOR_CYCLE_colors ! ((n + k) mod 5)) [0..<length ss]), n + length ss)"
proof (induction ss arbitrary: n)
  case Nil
  show ?case by simp
next
  case (Cons s ss)
  have len: "length COLOR_CYCLE_colors = 5" by (simp add: COLOR_CYCLE_colors_def)
  have "map (\<lambda>k. COLOR_CYCLE_colors ! ((n + k) mod 5)) [0..<Suc (length ss)] =
        COLOR_CYCLE_colors ! (n mod 5) # map (\<lambda>k. COLOR_CYCLE_colors ! ((Suc n + k) mod 5)) [0..<length ss]"
  proof -
    have "[0..<Suc (length ss)] = 0 # map Suc [0..<length ss]"
      by (simp only: map_Suc_upt upt_conv_Cons [of 0 "Suc (length ss)"])
    then show ?thesis by (simp add: comp_def del: upt_Suc)
  qed
  then show ?case
    by (simp add: Cons.IH cycle_next_def len)
qed

lemma map_fst_zip_cycle: "map fst (fst (zip_cycle ss n)) = ss"
  by (simp add: zip_cycle_eq)

section \<open>Construction\<close>

lemma py_index_first: "xs \<noteq> [] \<Longrightarrow> py_index xs 0 = Inr (hd xs)"
  by (cases xs) (simp_all add: py_index_def)

lemma py_index_last: "xs \<noteq> [] \<Longrightarrow> py_index xs (- 1) = Inr (last xs)"
proof -
  assume ne: "xs \<noteq> []"
  then have pos: "Suc 0 \<le> length xs" by (cases xs) simp_all
  then have "nat (int (length xs) + - 1) = length xs - 1" by simp
  with ne pos show ?thesis
    by (simp add: py_index_def last_conv_nth)
qed

lemma first_letters_Inr:
  "first_letters ts = Inr ks \<Longrightarrow>
     length ks = length ts \<and> (\<forall>i<length ts. ts ! i \<noteq> [] \<and> ks ! i = [ts ! i ! 0])"
proof (induction ts arbitrary: ks)
  case Nil
  then show ?case by simp
next
  case (Cons t ts)
  then obtain c cs ks' where t: "t = c # cs" and r: "first_letters ts = Inr ks'" and ks: "ks = [c] # ks'"
    by (auto split: list.splits sum.splits)
  from Cons.IH [OF r] show ?case
    by (auto simp: t ks nth_Cons split: nat.splits)
qed

lemma first_letters_total: "[] \<notin> set ts \<Longrightarrow> \<exists>ks. first_letters ts = Inr ks"
  by (induction ts) (auto split: list.splits)

lemma first_letters_empty: "[] \<in> set ts \<Longrightarrow> first_letters ts = Inl IndexError"
  by (induction ts) (auto split: list.splits sum.splits)

lemma StageField_init_Inr:
  assumes "StageField_init nm stgs trns sc cyc = Inr (f, cyc')"
  shows "name f = nm" and "stages f = stgs" and "stage_indices f = make_stage_indices stgs"
    and "transitions f = trns" and "stgs \<noteq> []" and "length stgs = Suc (length trns)"
    and "colors f = dict_update [hd stgs \<mapsto> FIRST_COLOR, last stgs \<mapsto> LAST_COLOR]
                      (fst (zip_cycle (butlast (tl stgs)) cyc))"
    and "cyc' = cyc + length (butlast (tl stgs))"
    and "sc = None \<Longrightarrow> first_letters trns = Inr (shortcuts f)"
    and "sc = Some ks \<Longrightarrow> shortcuts f = ks"
proof -
  from assms have len: "int (length trns) = int (length stgs) - 1"
    by (auto simp: StageField_init_def split: if_splits)
  then show ne: "stgs \<noteq> []" by auto
  from len show "length stgs = Suc (length trns)" by auto
  note ix = py_index_first [OF ne] py_index_last [OF ne]
  from assms len ix show "name f = nm" and "stages f = stgs"
    and "stage_indices f = make_stage_indices stgs" and "transitions f = trns"
    and "cyc' = cyc + length (butlast (tl stgs))"
    and "colors f = dict_update [hd stgs \<mapsto> FIRST_COLOR, last stgs \<mapsto> LAST_COLOR]
                      (fst (zip_cycle (butlast (tl stgs)) cyc))"
    by (auto simp: StageField_init_def zip_cycle_eq split: sum.splits option.splits)
  from assms len ix show "sc = None \<Longrightarrow> first_letters trns = Inr (shortcuts f)"
    by (auto simp: StageField_init_def zip_cycle_eq split: sum.splits option.splits)
  from assms len ix show "sc = Some ks \<Longrightarrow> shortcuts f = ks"
    by (auto simp: StageField_init_def zip_cycle_eq split: sum.splits option.splits)
qed

lemma default_field_init:
  "StageField_init ''stage'' [''egg'', ''larva'', ''adult'', ''dead''] [''hatch'', ''adult'', ''dead'']
     None 0 = Inr (default_field, 2)"
  by (simp add: StageField_init_def default_field_def py_index_def cycle_next_def
      COLOR_CYCLE_colors_def dict_update_def)

text \<open>
  Claim C7, as the code has it.  Construction succeeds for all stage and transition lists
  with \<^verbatim>\<open>len(transitions) == len(stages) - 1\<close>, provided that shortcuts are given or no
  transition name is empty (the default shortcut is the first letter of the name).  With
  any other relation between the lengths the assertion on the first line fails: the result
  is the error alone, no field is built and no colour is drawn from the cycle.
\<close>

theorem construction_length_check:
  "(int (length trns) = int (length stgs) - 1 \<and> (sc = None \<longrightarrow> [] \<notin> set trns)
      \<longrightarrow> (\<exists>f cyc'. StageField_init nm stgs trns sc cyc = Inr (f, cyc')))
   \<and> (int (length trns) \<noteq> int (length stgs) - 1
      \<longrightarrow> StageField_init nm stgs trns sc cyc = Inl AssertionError)"
proof (intro conjI impI)
  assume a: "int (length trns) = int (length stgs) - 1 \<and> (sc = None \<longrightarrow> [] \<notin> set trns)"
  then have ne: "stgs \<noteq> []" by auto
  from a obtain ks where ks: "(case sc of None \<Rightarrow> first_letters trns | Some ks \<Rightarrow> Inr ks) = Inr ks"
    using first_letters_total [of trns] by (cases sc) auto
  obtain kvs cyc' where z: "zip_cycle (butlast (tl stgs)) cyc = (kvs, cyc')"
    by (cases "zip_cycle (butlast (tl stgs)) cyc")
  from a show "\<exists>f cyc'. StageField_init nm stgs trns sc cyc = Inr (f, cyc')"
    by (simp add: StageField_init_def ks z py_index_first [OF ne] py_index_last [OF ne])
next
  assume "int (length trns) \<noteq> int (length stgs) - 1"
  then show "StageField_init nm stgs trns sc cyc = Inl AssertionError"
    by (simp add: StageField_init_def)
qed

theorem construction_length_check_witness:
  "(\<exists>f cyc'. StageField_init ''stage'' [''egg'', ''larva'', ''adult'', ''dead'']
       [''hatch'', ''adult'', ''dead''] None 0 = Inr (f, cyc'))
   \<and> StageField_init ''stage'' [''egg'', ''larva''] [''hatch'', ''adult''] None 0 = Inl AssertionError"
  using construction_length_check [of "[''hatch'', ''adult'', ''dead'']"
      "[''egg'', ''larva'', ''adult'', ''dead'']" None "''stage''" 0]
    construction_length_check [of "[''hatch'', ''adult'']" "[''egg'', ''larva'']" None "''stage''" 0]
  by simp

text \<open>
  The lengths \<^verbatim>\<open>['hatch', '']\<close> and \<^verbatim>\<open>['egg', 'larva', 'adult']\<close> satisfy the check,
  and construction with default shortcuts raises \<^verbatim>\<open>IndexError\<close> at \<^verbatim>\<open>''[0]\<close>.
\<close>

theorem construction_empty_transition_counterexample:
  "int (length [''hatch'', '''']) = int (length [''egg'', ''larva'', ''adult'']) - 1
   \<and> StageField_init ''stage'' [''egg'', ''larva'', ''adult''] [''hatch'', ''''] None 0 = Inl IndexError"
  by (simp add: StageField_init_def)

text \<open>
  Claim C9.  Constructed without a shortcut list, the field has one shortcut for each
  transition, and shortcut \<open>i\<close> is the first letter of transition \<open>i\<close>
  (\<^verbatim>\<open>transition[0]\<close>, a string of one character).
\<close>

theorem default_shortcuts:
  assumes "StageField_init nm stgs trns None cyc = Inr (f, cyc')"
  shows "length (shortcuts f) = length trns
         \<and> (\<forall>i<length trns. trns ! i \<noteq> [] \<and> shortcuts f ! i = [trns ! i ! 0])"
  using first_letters_Inr [OF StageField_init_Inr(9) [OF assms refl]] .

theorem default_shortcuts_witness:
  "StageField_init ''stage'' [''egg'', ''larva'', ''adult'', ''dead''] [''hatch'', ''adult'', ''dead'']
     None 0 = Inr (default_field, 2)
   \<and> shortcuts default_field ! 1 = [[''hatch'', ''adult'', ''dead''] ! 1 ! 0]"
  using default_shortcuts [OF default_field_init] default_field_init by simp

lemma map_of_rev_distinct: "distinct (map fst xs) \<Longrightarrow> map_of (rev xs) k = map_of xs k"
proof (induction xs)
  case Nil
  show ?case by simp
next
  case (Cons x xs)
  then have ih: "map_of (rev xs) k = map_of xs k" and fresh: "fst x \<notin> fst ` set xs"
    by simp_all
  from fresh have "map_of xs (fst x) = None"
    by (simp add: map_of_eq_None_iff)
  with ih show ?case
    by (cases x) (auto simp: map_add_def split: option.splits)
qed

lemma colors_of_distinct_stages:
  assumes init: "StageField_init nm stgs trns sc cyc = Inr (f, cyc')"
    and dist: "distinct stgs" and len: "2 \<le> length stgs"
  shows "colors f (stgs ! 0) = Some FIRST_COLOR"
    and "colors f (last stgs) = Some LAST_COLOR"
    and "\<And>i. 1 \<le> i \<Longrightarrow> i < length stgs - 1 \<Longrightarrow>
           colors f (stgs ! i) = Some (COLOR_CYCLE_colors ! ((cyc + (i - 1)) mod 5))"
proof -
  define inner where "inner = butlast (tl stgs)"
  define cs where "cs = map (\<lambda>k. COLOR_CYCLE_colors ! ((cyc + k) mod 5)) [0..<length inner]"
  have ne: "stgs \<noteq> []" using len by auto
  have col: "colors f k =
      (case map_of (zip inner cs) k of
         None \<Rightarrow> [hd stgs \<mapsto> FIRST_COLOR, last stgs \<mapsto> LAST_COLOR] k
       | Some v \<Rightarrow> Some v)" for k
  proof -
    have d: "distinct (map fst (zip inner cs))"
      using dist by (simp add: inner_def cs_def distinct_tl distinct_butlast)
    have "colors f k =
      (case map_of (rev (zip inner cs)) k of
         None \<Rightarrow> [hd stgs \<mapsto> FIRST_COLOR, last stgs \<mapsto> LAST_COLOR] k
       | Some v \<Rightarrow> Some v)"
      by (simp add: StageField_init_Inr(7) [OF init] dict_update_apply zip_cycle_eq
          inner_def cs_def)
    then show ?thesis
      by (simp only: map_of_rev_distinct [OF d])
  qed
  obtain a rest z where split: "stgs = a # rest @ [z]"
  proof -
    from len obtain a t where t: "stgs = a # t" "t \<noteq> []"
      by (cases stgs) (auto simp: Suc_le_eq)
    then obtain rest z where "t = rest @ [z]"
      by (metis rev_exhaust)
    with t that show ?thesis by simp
  qed
  then have inner: "inner = rest" by (simp add: inner_def)
  from dist split have a: "a \<notin> set rest" "a \<noteq> z" and z: "z \<notin> set rest" and drest: "distinct rest"
    by auto
  have lcs: "length cs = length rest" by (simp add: cs_def inner)
  have none: "k \<notin> set rest \<Longrightarrow> map_of (zip inner cs) k = None" for k
    by (auto simp: map_of_eq_None_iff inner dest: set_zip_leftD)
  show "colors f (stgs ! 0) = Some FIRST_COLOR"
    using a by (simp add: col none split)
  show "colors f (last stgs) = Some LAST_COLOR"
    using z by (simp add: col none split)
  show "colors f (stgs ! i) = Some (COLOR_CYCLE_colors ! ((cyc + (i - 1)) mod 5))"
    if i: "1 \<le> i" "i < length stgs - 1" for i
  proof -
    from i have j: "i - 1 < length rest" and si: "stgs ! i = rest ! (i - 1)"
      by (auto simp: split nth_Cons nth_append split: nat.splits)
    have "map_of (zip rest cs) (rest ! (i - 1)) = Some (cs ! (i - 1))"
      using lcs drest j by (intro map_of_zip_nth) simp_all
    moreover have "cs ! (i - 1) = COLOR_CYCLE_colors ! ((cyc + (i - 1)) mod 5)"
      using j by (simp add: cs_def inner)
    ultimately show ?thesis
      by (simp add: col si inner)
  qed
qed

text \<open>
  Claim C8, as the code has it.  For a list of at least two distinct stage names the
  constructor maps the first stage to \<^verbatim>\<open>FIRST_COLOR\<close>, the last stage to
  \<^verbatim>\<open>LAST_COLOR\<close>, and the interior stage at index \<open>i\<close> to the colour at position
  \<open>(cyc + (i - 1)) mod 5\<close> of the palette, where \<open>cyc\<close> counts the colours drawn from the
  class-wide cycle before this construction (0 for the first field of a process); the
  construction draws one colour for each interior stage.  The mapping depends on the stage
  list and \<open>cyc\<close> only.
\<close>

theorem color_assignment:
  assumes "StageField_init nm stgs trns sc cyc = Inr (f, cyc')"
    and "distinct stgs" and "2 \<le> length stgs"
  shows "colors f (stgs ! 0) = Some FIRST_COLOR
         \<and> colors f (last stgs) = Some LAST_COLOR
         \<and> (1 \<le> i \<and> i < length stgs - 1 \<longrightarrow>
               colors f (stgs ! i) = Some (COLOR_CYCLE_colors ! ((cyc + (i - 1)) mod 5)))
         \<and> cyc' = cyc + (length stgs - 2)"
proof -
  have "cyc' = cyc + (length stgs - 2)"
    using StageField_init_Inr(8) [OF assms(1)] by simp
  then show ?thesis
    using colors_of_distinct_stages [OF assms] by blast
qed

theorem color_assignment_witness:
  "StageField_init ''stage'' [''egg'', ''larva'', ''adult'', ''dead''] [''hatch'', ''adult'', ''dead'']
     None 0 = Inr (default_field, 2)
   \<and> distinct [''egg'', ''larva'', ''adult'', ''dead'']
   \<and> colors default_field ''egg'' = Some FIRST_COLOR
   \<and> colors default_field ''dead'' = Some LAST_COLOR
   \<and> colors default_field ''adult'' = Some (255, 255, 184)"
  using color_assignment [OF default_field_init, of 2] default_field_init
  by (simp add: COLOR_CYCLE_colors_def)

text \<open>
  With the single stage \<^verbatim>\<open>['egg']\<close> and no transition, \<^verbatim>\<open>stages[0]\<close> and
  \<^verbatim>\<open>stages[-1]\<close> are the same key of the dict literal and the later entry stays: the
  first stage has the colour \<^verbatim>\<open>LAST_COLOR\<close>.
\<close>

theorem color_single_stage_counterexample:
  "built_color (StageField_init ''stage'' [''egg''] [] None 0) ([''egg''] ! 0) = Inr (Some LAST_COLOR)
   \<and> LAST_COLOR \<noteq> FIRST_COLOR"
  by (simp add: built_color_def StageField_init_def py_index_def dict_update_def
      FIRST_COLOR_def LAST_COLOR_def)

section \<open>What the constructor establishes\<close>

lemma StageField_init_field_ok:
  assumes "StageField_init nm stgs trns sc cyc = Inr (f, cyc')"
  shows "field_ok f"
proof -
  note r = StageField_init_Inr [OF assms]
  have ne: "stgs \<noteq> []" by (rule r(5))
  have "set stgs = {hd stgs, last stgs} \<union> set (butlast (tl stgs))"
  proof (cases stgs)
    case Nil
    with ne show ?thesis by simp
  next
    case (Cons a t)
    show ?thesis
    proof (cases t rule: rev_cases)
      case Nil
      with Cons show ?thesis by simp
    next
      case (snoc t' z)
      with Cons show ?thesis by auto
    qed
  qed
  moreover have "fst ` set (fst (zip_cycle (butlast (tl stgs)) cyc)) = set (butlast (tl stgs))"
    using map_fst_zip_cycle [of "butlast (tl stgs)" cyc] by (metis set_map)
  ultimately have "dom (colors f) = set stgs"
    by (simp add: r(7) dom_dict_update) blast
  then show ?thesis
    by (simp add: field_ok_def r(2) r(3))
qed

lemma field_ok_index:
  assumes "field_ok f" and "stage_indices f s = Some i"
  shows "0 \<le> i" and "i < int (length (stages f))" and "stages f ! nat i = s"
    and "py_index (stages f) i = Inr s" and "s \<in> set (stages f)" and "\<exists>c. colors f s = Some c"
proof -
  from assms have m: "make_stage_indices (stages f) s = Some i"
    by (simp add: field_ok_def)
  from make_stage_indices_Some [OF m]
  show i: "0 \<le> i" "i < int (length (stages f))" "stages f ! nat i = s" by simp_all
  then show "py_index (stages f) i = Inr s" by (simp add: py_index_def)
  from i show mem: "s \<in> set (stages f)"
    by (metis nat_less_iff nth_mem)
  with assms(1) have "s \<in> dom (colors f)"
    by (simp add: field_ok_def)
  then show "\<exists>c. colors f s = Some c"
    by (rule domD)
qed

lemma field_ok_member:
  assumes "field_ok f" and "s \<in> set (stages f)"
  shows "\<exists>i. stage_indices f s = Some i"
  using assms make_stage_indices_None [of "stages f" s]
  by (cases "stage_indices f s") (auto simp: field_ok_def)

lemma field_ok_no_index:
  assumes "field_ok f" and "stage_indices f s = None"
  shows "colors f s = None"
proof -
  from assms have "s \<notin> set (stages f)"
    using make_stage_indices_None [of "stages f" s] by (simp add: field_ok_def)
  with assms(1) have "s \<notin> dom (colors f)"
    by (simp add: field_ok_def)
  then show ?thesis by (simp only: domIff not_not)
qed

lemma update_page_outcome:
  assumes ok: "field_ok f" and seen: "seen_index f oldest"
  obtains
    (unset) "get_annotation f p = None" and "oldest = - 1"
      and "update_page f oldest p = (None, - 1, p\<lparr>color := None\<rparr>)"
  | (unknown) s where "get_annotation f p = Some s" and "stage_indices f s = None"
      and "oldest = - 1" and "update_page f oldest p = (Some KeyError, - 1, p)"
  | (keep) s i c where "get_annotation f p = Some s" and "stage_indices f s = Some i"
      and "oldest \<le> i" and "colors f s = Some c"
      and "update_page f oldest p = (None, i, p\<lparr>color := Some c\<rparr>)"
  | (stamp) s c where "page_stage_i_low f p < oldest" and "stage_indices f s = Some oldest"
      and "colors f s = Some c"
      and "update_page f oldest p = (None, oldest, (set_annotation f s p)\<lparr>color := Some c\<rparr>)"
proof -
  have lo: "- 1 \<le> oldest"
  proof (cases "oldest = - 1")
    case False
    with seen obtain s where "stage_indices f s = Some oldest"
      by (auto simp: seen_index_def)
    from field_ok_index(1) [OF ok this] show ?thesis by simp
  qed simp
  show ?thesis
  proof (cases "page_stage_i_low f p < oldest")
    case True
    with lo have "oldest \<noteq> - 1"
      by (auto simp: page_stage_i_low_def stage_index_get_def split: option.splits
          dest: field_ok_index(1) [OF ok])
    with seen obtain s where s: "stage_indices f s = Some oldest"
      by (auto simp: seen_index_def)
    from field_ok_index(6) [OF ok s] obtain c where c: "colors f s = Some c" ..
    have "update_page f oldest p = (None, oldest, (set_annotation f s p)\<lparr>color := Some c\<rparr>)"
      using True by (simp add: update_page_def page_stage_i_low_def Let_def
          field_ok_index(4) [OF ok s] set_page_color_def c)
    with True s c show ?thesis by (rule stamp)
  next
    case False
    show ?thesis
    proof (cases "get_annotation f p")
      case None
      with False lo have o: "oldest = - 1"
        by (simp add: page_stage_i_low_def stage_index_get_def)
      have "update_page f oldest p = (None, - 1, p\<lparr>color := None\<rparr>)"
        by (simp add: update_page_def Let_def None o stage_index_get_def set_page_color_def)
      with None o show ?thesis by (rule unset)
    next
      case (Some s)
      show ?thesis
      proof (cases "stage_indices f s")
        case None
        with False lo Some have o: "oldest = - 1"
          by (simp add: page_stage_i_low_def stage_index_get_def)
        have "update_page f oldest p = (Some KeyError, - 1, p)"
          by (simp add: update_page_def Let_def None Some o stage_index_get_def set_page_color_def
              field_ok_no_index [OF ok None])
        with Some None o show ?thesis by (rule unknown)
      next
        case (Some i)
        note si = this
        with False \<open>get_annotation f p = Some s\<close> have le: "oldest \<le> i"
          by (simp add: page_stage_i_low_def stage_index_get_def)
        from field_ok_index(6) [OF ok si] obtain c where c: "colors f s = Some c" ..
        have "update_page f oldest p = (None, i, p\<lparr>color := Some c\<rparr>)"
          using le by (auto simp: update_page_def Let_def si \<open>get_annotation f p = Some s\<close>
              stage_index_get_def set_page_color_def c)
        with \<open>get_annotation f p = Some s\<close> si le c show ?thesis by (rule keep)
      qed
    qed
  qed
qed

section \<open>The forward pass of update\_widget\<close>

lemma get_annotation_color [simp]: "get_annotation f (p\<lparr>color := c\<rparr>) = get_annotation f p"
  by (simp add: get_annotation_def)

lemma get_annotation_set [simp]: "get_annotation f (set_annotation f s p) = Some s"
  by (simp add: get_annotation_def set_annotation_def)

lemma page_stage_i_low_color [simp]:
  "page_stage_i_low f (p\<lparr>color := c\<rparr>) = page_stage_i_low f p"
  by (simp add: page_stage_i_low_def)

lemma update_page_step:
  assumes ok: "field_ok f" and seen: "seen_index f oldest"
    and run: "update_page f oldest p = (None, oldest', p')"
  shows "seen_index f oldest'"
    and "oldest' = max oldest (page_stage_i_low f p)"
    and "page_stage_i_low f p' = oldest'"
    and "get_annotation f p' =
           (if page_stage_i_low f p < oldest then Some (stages f ! nat oldest)
            else get_annotation f p)"
    and "get_annotation f p' = Some s \<Longrightarrow> stage_indices f s \<noteq> None"
    and "update_page f oldest' p' = (None, oldest', p')"
    and "update_page f oldest p' = (None, oldest', p')"
proof -
  from ok seen have "seen_index f oldest' \<and> oldest' = max oldest (page_stage_i_low f p)
      \<and> page_stage_i_low f p' = oldest'
      \<and> get_annotation f p' =
           (if page_stage_i_low f p < oldest then Some (stages f ! nat oldest)
            else get_annotation f p)
      \<and> (get_annotation f p' = Some s \<longrightarrow> stage_indices f s \<noteq> None)
      \<and> update_page f oldest' p' = (None, oldest', p')
      \<and> update_page f oldest p' = (None, oldest', p')"
  proof (cases rule: update_page_outcome [where p = p])
    case unset
    with run have r: "oldest' = - 1" "p' = p\<lparr>color := None\<rparr>" by simp_all
    show ?thesis
      using unset(1-2)
      by (simp add: r seen_index_def page_stage_i_low_def stage_index_get_def update_page_def
          set_page_color_def Let_def)
  next
    case (unknown t)
    with run show ?thesis by simp
  next
    case (keep t i c)
    with run have r: "oldest' = i" "p' = p\<lparr>color := Some c\<rparr>" by simp_all
    have "seen_index f i" using keep(2) by (auto simp: seen_index_def)
    then show ?thesis
      using keep(1-4)
      by (auto simp: r page_stage_i_low_def stage_index_get_def update_page_def
          set_page_color_def Let_def)
  next
    case (stamp t c)
    with run have r: "oldest' = oldest" "p' = (set_annotation f t p)\<lparr>color := Some c\<rparr>"
      by simp_all
    show ?thesis
      using stamp(1-3) seen
      by (auto simp: r page_stage_i_low_def stage_index_get_def update_page_def
          set_page_color_def Let_def field_ok_index(3) [OF ok stamp(2)])
  qed
  then show "seen_index f oldest'"
    and "oldest' = max oldest (page_stage_i_low f p)"
    and "page_stage_i_low f p' = oldest'"
    and "get_annotation f p' =
           (if page_stage_i_low f p < oldest then Some (stages f ! nat oldest)
            else get_annotation f p)"
    and "get_annotation f p' = Some s \<Longrightarrow> stage_indices f s \<noteq> None"
    and "update_page f oldest' p' = (None, oldest', p')"
    and "update_page f oldest p' = (None, oldest', p')"
    by blast+
qed

lemma update_page_raise:
  assumes ok: "field_ok f" and seen: "seen_index f oldest"
    and run: "update_page f oldest p = (Some e, oldest', p')"
  shows "p' = p" and "oldest = - 1" and "e = KeyError"
  using ok seen run by (cases rule: update_page_outcome [where p = p]; simp)+

lemma update_pages_length: "update_pages f oldest ps = (r, ps') \<Longrightarrow> length ps' = length ps"
proof (induction ps arbitrary: oldest r ps')
  case Nil
  then show ?case by simp
next
  case (Cons p ps)
  obtain e o1 p1 where s: "update_page f oldest p = (e, o1, p1)"
    by (cases "update_page f oldest p")
  show ?case
  proof (cases e)
    case None
    obtain r2 ps2 where t: "update_pages f o1 ps = (r2, ps2)"
      by (cases "update_pages f o1 ps")
    from Cons.prems have "ps' = p1 # ps2" by (simp add: s None t)
    with Cons.IH [OF t] show ?thesis by simp
  next
    case (Some err)
    with Cons.prems s show ?thesis by auto
  qed
qed

lemma update_pages_Cons_None:
  assumes "update_pages f oldest (p # ps) = (None, qs)"
  obtains o1 p1 ps1 where "update_page f oldest p = (None, o1, p1)"
    and "update_pages f o1 ps = (None, ps1)" and "qs = p1 # ps1"
proof -
  obtain e o1 p1 where s: "update_page f oldest p = (e, o1, p1)"
    by (cases "update_page f oldest p")
  obtain r2 ps2 where t: "update_pages f o1 ps = (r2, ps2)"
    by (cases "update_pages f o1 ps")
  from assms s t have "e = None" "r2 = None" "qs = p1 # ps2"
    by (cases e; simp)+
  with s t that show ?thesis by simp
qed

lemma update_pages_idem:
  assumes ok: "field_ok f"
  shows "seen_index f oldest \<Longrightarrow> update_pages f oldest ps = (r, ps')
         \<Longrightarrow> update_pages f oldest ps' = (r, ps')"
proof (induction ps arbitrary: oldest r ps')
  case Nil
  then show ?case by simp
next
  case (Cons p ps)
  obtain e o1 p1 where s: "update_page f oldest p = (e, o1, p1)"
    by (cases "update_page f oldest p")
  show ?case
  proof (cases e)
    case None
    obtain r2 ps2 where t: "update_pages f o1 ps = (r2, ps2)"
      by (cases "update_pages f o1 ps")
    from Cons.prems(2) have res: "r = r2" "ps' = p1 # ps2"
      by (simp_all add: s None t)
    note st = update_page_step [OF ok Cons.prems(1) s [unfolded None]]
    from Cons.IH [OF st(1) t] show ?thesis
      by (simp add: res st(7))
  next
    case (Some err)
    from update_page_raise(1) [OF ok Cons.prems(1) s [unfolded Some]] have "p1 = p" .
    with Cons.prems(2) s Some show ?thesis by auto
  qed
qed

lemma update_pages_sorted:
  assumes ok: "field_ok f"
  shows "seen_index f oldest \<Longrightarrow> update_pages f oldest ps = (None, ps')
         \<Longrightarrow> sorted (oldest # map (page_stage_i_low f) ps')
             \<and> (\<forall>p\<in>set ps'. \<forall>s. get_annotation f p = Some s \<longrightarrow> stage_indices f s \<noteq> None)"
proof (induction ps arbitrary: oldest ps')
  case Nil
  then show ?case by simp
next
  case (Cons p ps)
  from Cons.prems(2) obtain o1 p1 ps1 where s: "update_page f oldest p = (None, o1, p1)"
    and t: "update_pages f o1 ps = (None, ps1)" and res: "ps' = p1 # ps1"
    by (rule update_pages_Cons_None)
  note st = update_page_step [OF ok Cons.prems(1) s]
  from Cons.IH [OF st(1) t]
  have ih: "sorted (o1 # map (page_stage_i_low f) ps1)"
    "\<forall>p\<in>set ps1. \<forall>s. get_annotation f p = Some s \<longrightarrow> stage_indices f s \<noteq> None"
    by simp_all
  from st(2) have "oldest \<le> o1" by simp
  with ih(1) have "sorted (oldest # map (page_stage_i_low f) ps')"
    by (auto simp: res st(3))
  moreover have "\<forall>p\<in>set ps'. \<forall>s. get_annotation f p = Some s \<longrightarrow> stage_indices f s \<noteq> None"
    using ih(2) st(5) by (auto simp: res)
  ultimately show ?case by simp
qed

lemma update_pages_nth:
  assumes ok: "field_ok f"
  shows "seen_index f oldest \<Longrightarrow> update_pages f oldest ps = (None, ps') \<Longrightarrow> j < length ps
         \<Longrightarrow> get_annotation f (ps' ! j) =
               (if page_stage_i_low f (ps ! j)
                     < fold max (map (page_stage_i_low f) (take j ps)) oldest
                then Some (stages f ! nat (fold max (map (page_stage_i_low f) (take j ps)) oldest))
                else get_annotation f (ps ! j))"
proof (induction ps arbitrary: oldest ps' j)
  case Nil
  then show ?case by simp
next
  case (Cons p ps)
  from Cons.prems(2) obtain o1 p1 ps1 where s: "update_page f oldest p = (None, o1, p1)"
    and t: "update_pages f o1 ps = (None, ps1)" and res: "ps' = p1 # ps1"
    by (rule update_pages_Cons_None)
  note st = update_page_step [OF ok Cons.prems(1) s]
  show ?case
  proof (cases j)
    case 0
    then show ?thesis by (simp add: res st(4))
  next
    case (Suc k)
    with Cons.prems(3) have k: "k < length ps" by simp
    have "max (page_stage_i_low f p) oldest = o1"
      by (simp add: st(2) max.commute)
    with Cons.IH [OF st(1) t k] show ?thesis
      by (simp add: res Suc)
  qed
qed

lemma update_pages_unset_prefix:
  "update_pages f (- 1) ps = (r, ps') \<Longrightarrow> j < length ps
   \<Longrightarrow> \<forall>k\<le>j. get_annotation f (ps ! k) = None \<Longrightarrow> get_annotation f (ps' ! j) = None"
proof (induction ps arbitrary: r ps' j)
  case Nil
  then show ?case by simp
next
  case (Cons p ps)
  from Cons.prems(3) have p: "get_annotation f p = None" by auto
  then have s: "update_page f (- 1) p = (None, - 1, p\<lparr>color := None\<rparr>)"
    by (simp add: update_page_def Let_def stage_index_get_def set_page_color_def)
  obtain r2 ps2 where t: "update_pages f (- 1) ps = (r2, ps2)"
    by (cases "update_pages f (- 1) ps")
  from Cons.prems(1) have res: "ps' = p\<lparr>color := None\<rparr> # ps2"
    by (simp add: s t)
  show ?case
  proof (cases j)
    case 0
    then show ?thesis by (simp add: res p)
  next
    case (Suc k)
    with Cons.prems(2) have k: "k < length ps" by simp
    from Cons.prems(3) Suc have "\<forall>i\<le>k. get_annotation f (ps ! i) = None" by auto
    from Cons.IH [OF t k this] show ?thesis by (simp add: res Suc)
  qed
qed

lemma seen_index_start: "seen_index f (- 1)"
  by (simp add: seen_index_def)

lemma update_widget_pages:
  assumes "update_widget f val g = (r, g')" and "r \<noteq> Some ValueError"
  shows "update_pages f (- 1) (pages g) = (r, pages g')"
proof (cases val)
  case None
  with assms(1) show ?thesis
    by (auto simp: update_widget_def split: prod.splits)
next
  case (Some v)
  with assms show ?thesis
    by (auto simp: update_widget_def split: prod.splits if_splits)
qed

text \<open>
  Claim C6.  A value that is not \<^verbatim>\<open>None\<close> and not a stage name makes
  \<^verbatim>\<open>update_widget\<close> raise \<^verbatim>\<open>ValueError\<close>; the pages and the label text are as before
  the call, the loop over the pages is not reached.
\<close>

theorem invalid_value_rejected:
  "v \<notin> set (stages f) \<Longrightarrow> update_widget f (Some v) g = (Some ValueError, g)"
  by (simp add: update_widget_def)

theorem invalid_value_rejected_witness:
  "''zombie'' \<notin> set (stages default_field)
   \<and> update_widget default_field (Some ''zombie'')
        \<lparr>pages = [staged_page ''larva'', staged_page ''egg'', unset_page], label_text = ''larva''\<rparr>
      = (Some ValueError,
         \<lparr>pages = [staged_page ''larva'', staged_page ''egg'', unset_page], label_text = ''larva''\<rparr>)"
proof -
  have h: "''zombie'' \<notin> set (stages default_field)"
    by (simp add: default_field_def)
  from h invalid_value_rejected [OF h] show ?thesis by simp
qed

lemma update_widget_valid:
  assumes "\<forall>v. val = Some v \<longrightarrow> v \<in> set (stages f)"
  shows "update_widget f val g =
           (case update_pages f (- 1) (pages g) of
              (r, ps') \<Rightarrow> (r, \<lparr>pages = ps', label_text = (case val of None \<Rightarrow> [] | Some v \<Rightarrow> v)\<rparr>))"
  using assms by (cases val) (simp_all add: update_widget_def)

text \<open>
  Claim C5.  A second call of \<^verbatim>\<open>update_widget\<close> with the same value, right after the
  first, changes no label: it has the outcome of the first call and leaves every page
  (labels and colours) and the label text as the first call left them.  This holds for
  every value and also when the first call raised.
\<close>

theorem update_widget_idempotent:
  assumes "StageField_init nm stgs trns sc cyc = Inr (f, cyc')"
    and "update_widget f val g = (r, g')"
  shows "update_widget f val g' = (r, g')
         \<and> map (get_annotation f) (pages (snd (update_widget f val g')))
             = map (get_annotation f) (pages g')"
proof -
  note ok = StageField_init_field_ok [OF assms(1)]
  have "update_widget f val g' = (r, g')"
  proof (cases "\<forall>v. val = Some v \<longrightarrow> v \<in> set (stages f)")
    case False
    then obtain v where v: "val = Some v" "v \<notin> set (stages f)" by auto
    with assms(2) have "r = Some ValueError" "g' = g"
      by (simp_all add: update_widget_def)
    with v show ?thesis by (simp add: update_widget_def)
  next
    case True
    obtain ps' where run: "update_pages f (- 1) (pages g) = (r, ps')"
      and g': "g' = \<lparr>pages = ps', label_text = (case val of None \<Rightarrow> [] | Some v \<Rightarrow> v)\<rparr>"
      using assms(2) by (auto simp: update_widget_valid [OF True] split: prod.splits)
    from update_pages_idem [OF ok seen_index_start run]
    have "update_pages f (- 1) ps' = (r, ps')" .
    then show ?thesis
      by (simp add: update_widget_valid [OF True] g')
  qed
  then show ?thesis by simp
qed

theorem update_widget_idempotent_witness:
  "StageField_init ''stage'' [''egg'', ''larva'', ''adult'', ''dead''] [''hatch'', ''adult'', ''dead'']
     None 0 = Inr (default_field, 2)
   \<and> map (get_annotation default_field)
        (pages (snd (update_widget default_field (Some ''larva'')
           (snd (update_widget default_field (Some ''larva'')
              \<lparr>pages = [staged_page ''larva'', staged_page ''egg'', unset_page],
                label_text = []\<rparr>)))))
      = map (get_annotation default_field)
          (pages (snd (update_widget default_field (Some ''larva'')
             \<lparr>pages = [staged_page ''larva'', staged_page ''egg'', unset_page],
               label_text = []\<rparr>)))"
  using update_widget_idempotent [OF default_field_init prod.collapse [symmetric]]
    default_field_init
  by blast

text \<open>
  Claim C10.  After \<^verbatim>\<open>update_widget\<close> has returned without an exception, a page with a
  label is never followed by a page without one: the pages without a label are a prefix
  of the flipbook.
\<close>

theorem unset_prefix_after_update:
  assumes "StageField_init nm stgs trns sc cyc = Inr (f, cyc')"
    and "update_widget f val g = (None, g')"
    and "i < j" and "j < length (pages g')"
    and "get_annotation f (pages g' ! i) \<noteq> None"
  shows "get_annotation f (pages g' ! j) \<noteq> None"
proof -
  note ok = StageField_init_field_ok [OF assms(1)]
  have run: "update_pages f (- 1) (pages g) = (None, pages g')"
    by (rule update_widget_pages [OF assms(2)]) simp
  note shape = update_pages_sorted [OF ok seen_index_start run]
  from shape have "sorted (map (page_stage_i_low f) (pages g'))" by simp
  with assms(3,4) have le: "page_stage_i_low f (pages g' ! i) \<le> page_stage_i_low f (pages g' ! j)"
    by (simp add: sorted_iff_nth_mono)
  from assms(5) obtain s where s: "get_annotation f (pages g' ! i) = Some s" by auto
  with shape assms(3,4) obtain a where a: "stage_indices f s = Some a"
    by (metis nth_mem order.strict_trans not_None_eq)
  have "0 \<le> page_stage_i_low f (pages g' ! i)"
    using field_ok_index(1) [OF ok a] by (simp add: page_stage_i_low_def stage_index_get_def s a)
  with le have "0 \<le> page_stage_i_low f (pages g' ! j)" by simp
  then show ?thesis
    by (cases "get_annotation f (pages g' ! j)")
      (simp_all add: page_stage_i_low_def stage_index_get_def)
qed

theorem unset_prefix_after_update_witness:
  "fst (update_widget default_field None example_gui) = None
   \<and> get_annotation default_field (pages (snd (update_widget default_field None example_gui)) ! 1)
       \<noteq> None
   \<and> get_annotation default_field (pages (snd (update_widget default_field None example_gui)) ! 2)
       \<noteq> None"
proof -
  have ok: "fst (update_widget default_field None example_gui) = None" by code_simp
  then have run: "update_widget default_field None example_gui
      = (None, snd (update_widget default_field None example_gui))"
    by (metis prod.collapse)
  have len: "2 < length (pages (snd (update_widget default_field None example_gui)))"
    by code_simp
  have set1: "get_annotation default_field
      (pages (snd (update_widget default_field None example_gui)) ! 1) \<noteq> None"
    by code_simp
  have "(1::nat) < 2" by simp
  from unset_prefix_after_update [OF default_field_init run this len set1] ok set1
  show ?thesis by simp
qed

lemma fold_max_eq:
  fixes a :: int
  assumes "a \<in> set xs" and "\<forall>x\<in>set xs. x \<le> a" and "b \<le> a"
  shows "fold max xs b = a"
proof -
  have "fold max xs b = Max (set (b # xs))"
    by (rule Max.set_eq_fold [symmetric])
  also have "\<dots> = a"
    using assms by (intro Max_eqI) auto
  finally show ?thesis .
qed

text \<open>
  Claim C4, as the code has it.  Let page \<open>j\<close> have no label when \<^verbatim>\<open>update_widget\<close> is
  called.  If no page before it has a label either, it has none after the call (whatever
  the outcome of the call).  If the call returns without an exception and a page \<open>i\<close>
  before \<open>j\<close> has the stage \<open>s\<close>, whose index is at least that of every page before \<open>j\<close>,
  then page \<open>j\<close> has the label \<open>s\<close> after the call.  The call does not return when a label
  that is no stage name stands before every stage: the colour lookup raises at that page
  and the pages after it are not reached.
\<close>

theorem forward_pass_unset_pages:
  assumes "StageField_init nm stgs trns sc cyc = Inr (f, cyc')"
    and "update_widget f val g = (r, g')"
    and "j < length (pages g)"
    and "get_annotation f (pages g ! j) = None"
  shows "((\<forall>k<j. get_annotation f (pages g ! k) = None) \<longrightarrow>
            get_annotation f (pages g' ! j) = None)
         \<and> (r = None \<and> i < j \<and> get_annotation f (pages g ! i) = Some s \<and> s \<in> set (stages f)
              \<and> (\<forall>k<j. page_stage_i_low f (pages g ! k) \<le> page_stage_i_low f (pages g ! i))
            \<longrightarrow> get_annotation f (pages g' ! j) = Some s)"
proof (intro conjI impI)
  assume pre: "\<forall>k<j. get_annotation f (pages g ! k) = None"
  show "get_annotation f (pages g' ! j) = None"
  proof (cases "\<forall>v. val = Some v \<longrightarrow> v \<in> set (stages f)")
    case False
    with assms(2) have "g' = g"
      by (auto simp: update_widget_def)
    with assms(4) show ?thesis by simp
  next
    case True
    obtain ps' where run: "update_pages f (- 1) (pages g) = (r, ps')" and g': "pages g' = ps'"
      using assms(2) by (auto simp: update_widget_valid [OF True] split: prod.splits)
    from pre assms(4) have "\<forall>k\<le>j. get_annotation f (pages g ! k) = None"
      by (auto simp: le_less)
    from update_pages_unset_prefix [OF run assms(3) this] show ?thesis
      by (simp add: g')
  qed
next
  assume b: "r = None \<and> i < j \<and> get_annotation f (pages g ! i) = Some s \<and> s \<in> set (stages f)
     \<and> (\<forall>k<j. page_stage_i_low f (pages g ! k) \<le> page_stage_i_low f (pages g ! i))"
  note ok = StageField_init_field_ok [OF assms(1)]
  from b assms(2) have run: "update_pages f (- 1) (pages g) = (None, pages g')"
    by (intro update_widget_pages) simp_all
  from b field_ok_member [OF ok] obtain a where a: "stage_indices f s = Some a" by blast
  note ix = field_ok_index [OF ok a]
  from b have pi: "page_stage_i_low f (pages g ! i) = a"
    by (simp add: page_stage_i_low_def stage_index_get_def a)
  define xs where "xs = map (page_stage_i_low f) (take j (pages g))"
  have "a \<in> set xs"
  proof -
    from b assms(3) have "i < length xs" by (simp add: xs_def)
    moreover from b assms(3) have "xs ! i = a" by (simp add: xs_def pi)
    ultimately show ?thesis by (metis nth_mem)
  qed
  moreover have "\<forall>x\<in>set xs. x \<le> a"
  proof
    fix x assume "x \<in> set xs"
    then obtain k where "k < length xs" "xs ! k = x" by (auto simp: in_set_conv_nth)
    with b assms(3) show "x \<le> a" by (auto simp: xs_def pi)
  qed
  ultimately have m: "fold max xs (- 1) = a"
    using ix(1) by (intro fold_max_eq) simp_all
  have "page_stage_i_low f (pages g ! j) = - 1"
    by (simp add: page_stage_i_low_def stage_index_get_def assms(4))
  with update_pages_nth [OF ok seen_index_start run assms(3)] ix(1) ix(3)
  show "get_annotation f (pages g' ! j) = Some s"
    by (simp add: m [unfolded xs_def])
qed

theorem forward_pass_unset_pages_witness:
  "get_annotation default_field (pages (snd (update_widget default_field None example_gui)) ! 0) = None
   \<and> fst (update_widget default_field None example_gui) = None
   \<and> get_annotation default_field (pages example_gui ! 1) = Some ''larva''
   \<and> get_annotation default_field (pages (snd (update_widget default_field None example_gui)) ! 2)
       = Some ''larva''"
proof -
  have fin: "fst (update_widget default_field None example_gui) = None" by code_simp
  then have run: "update_widget default_field None example_gui
      = (None, snd (update_widget default_field None example_gui))"
    by (metis prod.collapse)
  have l0: "0 < length (pages example_gui)" and l2: "2 < length (pages example_gui)"
    by (simp_all add: example_gui_def)
  have u0: "get_annotation default_field (pages example_gui ! 0) = None"
    and u2: "get_annotation default_field (pages example_gui ! 2) = None"
    and s1: "get_annotation default_field (pages example_gui ! 1) = Some ''larva''"
    by code_simp+
  have mem: "''larva'' \<in> set (stages default_field)"
    by (simp add: default_field_def)
  have le: "\<forall>k<2. page_stage_i_low default_field (pages example_gui ! k)
      \<le> page_stage_i_low default_field (pages example_gui ! 1)"
  proof (intro allI impI)
    fix k :: nat assume "k < 2"
    then have "k = 0 \<or> k = 1" by auto
    moreover have "page_stage_i_low default_field (pages example_gui ! 0)
      \<le> page_stage_i_low default_field (pages example_gui ! 1)" by code_simp
    ultimately show "page_stage_i_low default_field (pages example_gui ! k)
      \<le> page_stage_i_low default_field (pages example_gui ! 1)" by auto
  qed
  from forward_pass_unset_pages [OF default_field_init run l0 u0, of 0 "''larva''"]
  have a: "get_annotation default_field
      (pages (snd (update_widget default_field None example_gui)) ! 0) = None"
    by simp
  from forward_pass_unset_pages [OF default_field_init run l2 u2, of 1 "''larva''"] s1 mem le
  have b: "get_annotation default_field
      (pages (snd (update_widget default_field None example_gui)) ! 2) = Some ''larva''"
    by simp
  from a b s1 fin show ?thesis by simp
qed

text \<open>
  The pages zombie, larva and one without a label.  The third page has no label and comes
  after the larva page, whose position is at least that of every page before the third;
  \<^verbatim>\<open>update_widget\<close> raises \<^verbatim>\<open>KeyError\<close> at \<^verbatim>\<open>self.colors['zombie']\<close> on the first page
  and the third page stays without a label.
\<close>

theorem forward_pass_unknown_label_counterexample:
  "get_annotation default_field (pages mislabelled_gui ! 2) = None
   \<and> get_annotation default_field (pages mislabelled_gui ! 1) = Some ''larva''
   \<and> ''larva'' \<in> set (stages default_field)
   \<and> page_stage_i_low default_field (pages mislabelled_gui ! 0)
       \<le> page_stage_i_low default_field (pages mislabelled_gui ! 1)
   \<and> fst (update_widget default_field None mislabelled_gui) = Some KeyError
   \<and> get_annotation default_field
        (pages (snd (update_widget default_field None mislabelled_gui)) ! 2) = None"
  by code_simp

section \<open>set\_stage\<close>

text \<open>
  Claim C3.  With the default stages and five pages without a label, \<^verbatim>\<open>set_stage('adult')\<close>
  on the third page returns and leaves the labels larva, larva, adult, adult, adult.
  The field is the one the constructor builds from its defaults.  The backward pass alone
  (started at index 1, one below the index 2 of adult) gives larva, larva, adult and
  leaves the last two pages without a label; the forward pass of \<^verbatim>\<open>update_widget\<close>
  labels them adult.
\<close>

theorem scenario_adult_on_third_page:
  "StageField_init ''stage'' [''egg'', ''larva'', ''adult'', ''dead''] [''hatch'', ''adult'', ''dead'']
     None 0 = Inr (default_field, 2)
   \<and> fst (set_stage default_field ''adult'' 2 \<lparr>pages = replicate 5 unset_page, label_text = []\<rparr>)
       = None
   \<and> map (get_annotation default_field)
        (pages (snd (set_stage default_field ''adult'' 2
                      \<lparr>pages = replicate 5 unset_page, label_text = []\<rparr>)))
      = [Some ''larva'', Some ''larva'', Some ''adult'', Some ''adult'', Some ''adult'']
   \<and> stage_indices default_field ''adult'' = Some 2
   \<and> map (get_annotation default_field)
        (snd (backward_pass default_field (2 - 1) 2
               ((replicate 5 unset_page)[2 := set_annotation default_field ''adult'' unset_page])))
      = [Some ''larva'', Some ''larva'', Some ''adult'', None, None]"
proof -
  have "fst (set_stage default_field ''adult'' 2 \<lparr>pages = replicate 5 unset_page, label_text = []\<rparr>)
       = None
   \<and> map (get_annotation default_field)
        (pages (snd (set_stage default_field ''adult'' 2
                      \<lparr>pages = replicate 5 unset_page, label_text = []\<rparr>)))
      = [Some ''larva'', Some ''larva'', Some ''adult'', Some ''adult'', Some ''adult'']
   \<and> stage_indices default_field ''adult'' = Some 2
   \<and> map (get_annotation default_field)
        (snd (backward_pass default_field (2 - 1) 2
               ((replicate 5 unset_page)[2 := set_annotation default_field ''adult'' unset_page])))
      = [Some ''larva'', Some ''larva'', Some ''adult'', None, None]"
    by code_simp
  with default_field_init show ?thesis by (rule conjI)
qed

section \<open>The backward pass of set\_stage\<close>

lemma page_stage_i_high_bounds:
  assumes ok: "field_ok f"
  shows "0 \<le> page_stage_i_high f p" and "page_stage_i_high f p \<le> int (length (stages f))"
proof -
  have "0 \<le> page_stage_i_high f p \<and> page_stage_i_high f p \<le> int (length (stages f))"
  proof (cases "get_annotation f p")
    case None
    then show ?thesis by (simp add: page_stage_i_high_def stage_index_get_def)
  next
    case (Some s)
    show ?thesis
    proof (cases "stage_indices f s")
      case None
      with Some show ?thesis by (simp add: page_stage_i_high_def stage_index_get_def)
    next
      case (Some i)
      with field_ok_index(1,2) [OF ok Some] \<open>get_annotation f p = Some s\<close> show ?thesis
        by (simp add: page_stage_i_high_def stage_index_get_def)
    qed
  qed
  then show "0 \<le> page_stage_i_high f p" and "page_stage_i_high f p \<le> int (length (stages f))"
    by simp_all
qed

lemma lower_youngest_bounds:
  assumes ok: "field_ok f" and "0 \<le> y"
  shows "0 \<le> lower_youngest f p y" and "lower_youngest f p y \<le> y"
  using assms page_stage_i_high_bounds(1) [OF ok, of p]
  by (simp_all add: lower_youngest_def)

lemma fold_lower_youngest_bounds:
  assumes ok: "field_ok f"
  shows "0 \<le> y \<Longrightarrow> 0 \<le> fold (lower_youngest f) qs y \<and> fold (lower_youngest f) qs y \<le> y"
proof (induction qs arbitrary: y)
  case Nil
  then show ?case by simp
next
  case (Cons q qs)
  note b = lower_youngest_bounds [OF ok Cons.prems, of q]
  from Cons.IH [OF b(1)] b(2) show ?case by simp
qed

lemma fix_previous_nth:
  assumes ok: "field_ok f"
  shows "0 \<le> y \<Longrightarrow> y < int (length (stages f)) \<Longrightarrow>
         (\<exists>qs'. fix_previous f y qs = (None, qs') \<and> length qs' = length qs
            \<and> (\<forall>k<length qs.
                  qs' ! k =
                    (if page_stage_i_high f (qs ! k) < fold (lower_youngest f) (take k qs) y
                     then qs ! k
                     else set_annotation f
                            (stages f ! nat (fold (lower_youngest f) (take k qs) y)) (qs ! k))))"
proof (induction qs arbitrary: y)
  case Nil
  then show ?case by simp
next
  case (Cons q qs)
  let ?pi = "page_stage_i_high f q"
  have pi: "stage_index_get f (get_annotation f q) (int (length (stages f))) = ?pi"
    by (simp add: page_stage_i_high_def)
  show ?case
  proof (cases "?pi < y")
    case True
    have lo: "0 \<le> ?pi" by (rule page_stage_i_high_bounds(1) [OF ok])
    from True Cons.prems have hi: "?pi < int (length (stages f))" by simp
    from Cons.IH [OF lo hi] obtain qs' where r: "fix_previous f ?pi qs = (None, qs')"
      and len: "length qs' = length qs"
      and nth: "\<forall>k<length qs.
                  qs' ! k =
                    (if page_stage_i_high f (qs ! k) < fold (lower_youngest f) (take k qs) ?pi
                     then qs ! k
                     else set_annotation f
                            (stages f ! nat (fold (lower_youngest f) (take k qs) ?pi)) (qs ! k))"
      by blast
    have step: "lower_youngest f q y = ?pi" using True by (simp add: lower_youngest_def)
    have "fix_previous f y (q # qs) = (None, q # qs')"
      using True by (simp add: Let_def pi r)
    moreover have "\<forall>k<length (q # qs).
        (q # qs') ! k =
          (if page_stage_i_high f ((q # qs) ! k) < fold (lower_youngest f) (take k (q # qs)) y
           then (q # qs) ! k
           else set_annotation f
                  (stages f ! nat (fold (lower_youngest f) (take k (q # qs)) y)) ((q # qs) ! k))"
    proof (intro allI impI)
      fix k assume "k < length (q # qs)"
      then show "(q # qs') ! k =
          (if page_stage_i_high f ((q # qs) ! k) < fold (lower_youngest f) (take k (q # qs)) y
           then (q # qs) ! k
           else set_annotation f
                  (stages f ! nat (fold (lower_youngest f) (take k (q # qs)) y)) ((q # qs) ! k))"
        using True nth by (cases k) (simp_all add: step)
    qed
    ultimately show ?thesis using len by simp
  next
    case False
    from Cons.IH [OF Cons.prems] obtain qs' where r: "fix_previous f y qs = (None, qs')"
      and len: "length qs' = length qs"
      and nth: "\<forall>k<length qs.
                  qs' ! k =
                    (if page_stage_i_high f (qs ! k) < fold (lower_youngest f) (take k qs) y
                     then qs ! k
                     else set_annotation f
                            (stages f ! nat (fold (lower_youngest f) (take k qs) y)) (qs ! k))"
      by blast
    have step: "lower_youngest f q y = y" using False by (simp add: lower_youngest_def)
    have ix: "py_index (stages f) y = Inr (stages f ! nat y)"
      using Cons.prems by (simp add: py_index_def)
    have "fix_previous f y (q # qs) = (None, set_annotation f (stages f ! nat y) q # qs')"
      using False by (simp add: Let_def pi r ix)
    moreover have "\<forall>k<length (q # qs).
        (set_annotation f (stages f ! nat y) q # qs') ! k =
          (if page_stage_i_high f ((q # qs) ! k) < fold (lower_youngest f) (take k (q # qs)) y
           then (q # qs) ! k
           else set_annotation f
                  (stages f ! nat (fold (lower_youngest f) (take k (q # qs)) y)) ((q # qs) ! k))"
    proof (intro allI impI)
      fix k assume "k < length (q # qs)"
      then show "(set_annotation f (stages f ! nat y) q # qs') ! k =
          (if page_stage_i_high f ((q # qs) ! k) < fold (lower_youngest f) (take k (q # qs)) y
           then (q # qs) ! k
           else set_annotation f
                  (stages f ! nat (fold (lower_youngest f) (take k (q # qs)) y)) ((q # qs) ! k))"
        using False nth by (cases k) (simp_all add: step)
    qed
    ultimately show ?thesis using len by simp
  qed
qed

lemma make_stage_indices_last:
  "make_stage_indices stgs s = Some i \<Longrightarrow> k < length stgs \<Longrightarrow> stgs ! k = s \<Longrightarrow> int k \<le> i"
proof (induction stgs arbitrary: i k rule: rev_induct)
  case Nil
  then show ?case by simp
next
  case (snoc x xs)
  have unfold: "make_stage_indices (xs @ [x]) = (make_stage_indices xs)(x \<mapsto> int (length xs))"
    by (simp add: make_stage_indices_def dict_update_def)
  show ?case
  proof (cases "s = x")
    case True
    with snoc.prems(1) have "i = int (length xs)" by (simp add: unfold)
    with snoc.prems(2) show ?thesis by simp
  next
    case False
    with snoc.prems(1) have m: "make_stage_indices xs s = Some i" by (simp add: unfold)
    from False snoc.prems(2,3) have "k < length xs"
      by (cases "k = length xs") auto
    moreover with snoc.prems(3) have "xs ! k = s" by (simp add: nth_append)
    ultimately show ?thesis using snoc.IH [OF m] by simp
  qed
qed

lemma target_stage_index:
  assumes ok: "field_ok f" and mem: "stage \<in> set (tl (stages f))"
  obtains t where "stage_indices f stage = Some t" and "1 \<le> t" and "t < int (length (stages f))"
proof -
  from mem have "stage \<in> set (stages f)"
    by (cases "stages f") auto
  from field_ok_member [OF ok this] obtain t where t: "stage_indices f stage = Some t" ..
  from mem obtain k where k: "k < length (tl (stages f))" "tl (stages f) ! k = stage"
    by (auto simp: in_set_conv_nth)
  then have "Suc k < length (stages f)" "stages f ! Suc k = stage"
    by (simp_all add: nth_tl)
  with make_stage_indices_last [of "stages f" stage t "Suc k"] t ok have "int (Suc k) \<le> t"
    by (simp add: field_ok_def)
  then have "1 \<le> t" by simp
  with t field_ok_index(2) [OF ok t] that show ?thesis by blast
qed

lemma backward_pass_nth:
  assumes ok: "field_ok f" and y: "0 \<le> y" "y < int (length (stages f))"
    and fb: "fb_i \<le> length ps"
  shows "\<exists>ps'. backward_pass f y fb_i ps = (None, ps') \<and> length ps' = length ps
           \<and> (\<forall>j. fb_i \<le> j \<and> j < length ps \<longrightarrow> ps' ! j = ps ! j)
           \<and> (\<forall>j<fb_i.
                 ps' ! j =
                   (if page_stage_i_high f (ps ! j) < youngest_allowed f y fb_i ps j then ps ! j
                    else set_annotation f (stages f ! nat (youngest_allowed f y fb_i ps j)) (ps ! j)))"
proof (cases "fb_i > 0")
  case False
  then show ?thesis by (simp add: backward_pass_def)
next
  case True
  define qs where "qs = rev (take fb_i ps)"
  have lq: "length qs = fb_i" using fb by (simp add: qs_def)
  from fix_previous_nth [OF ok y, of qs] obtain qs' where r: "fix_previous f y qs = (None, qs')"
    and len: "length qs' = length qs"
    and nth: "\<forall>k<length qs.
                qs' ! k =
                  (if page_stage_i_high f (qs ! k) < fold (lower_youngest f) (take k qs) y
                   then qs ! k
                   else set_annotation f
                          (stages f ! nat (fold (lower_youngest f) (take k qs) y)) (qs ! k))"
    by blast
  have res: "backward_pass f y fb_i ps = (None, rev qs' @ drop fb_i ps)"
    using True r by (simp add: backward_pass_def qs_def)
  have l: "length (rev qs' @ drop fb_i ps) = length ps"
    using fb by (simp add: len lq)
  have after: "(rev qs' @ drop fb_i ps) ! j = ps ! j" if "fb_i \<le> j" "j < length ps" for j
    using that fb by (simp add: nth_append len lq)
  have before: "(rev qs' @ drop fb_i ps) ! j =
      (if page_stage_i_high f (ps ! j) < youngest_allowed f y fb_i ps j then ps ! j
       else set_annotation f (stages f ! nat (youngest_allowed f y fb_i ps j)) (ps ! j))"
    if j: "j < fb_i" for j
  proof -
    define k where "k = fb_i - Suc j"
    from j have k: "k < length qs" "fb_i - k = Suc j" "fb_i - Suc k = j"
      by (simp_all add: k_def lq)
    have "(rev qs' @ drop fb_i ps) ! j = qs' ! k"
      using j by (simp add: nth_append len lq rev_nth k_def)
    moreover have "qs ! k = ps ! j"
      using j fb k by (simp add: qs_def rev_nth)
    moreover have "take k qs = rev (drop (Suc j) (take fb_i ps))"
      using fb k by (simp add: qs_def take_rev)
    ultimately show ?thesis
      using nth k(1) by (simp add: youngest_allowed_def)
  qed
  from res l after before show ?thesis by simp
qed

lemma youngest_allowed_update:
  "youngest_allowed f y fb_i (ps[fb_i := p]) j = youngest_allowed f y fb_i ps j"
  by (simp add: youngest_allowed_def)

lemma youngest_allowed_bounds:
  assumes "field_ok f" and "0 \<le> y"
  shows "0 \<le> youngest_allowed f y fb_i ps j" and "youngest_allowed f y fb_i ps j \<le> y"
  using fold_lower_youngest_bounds [OF assms] by (simp_all add: youngest_allowed_def)

text \<open>
  Claim C2, as the code has it.  For a target stage from \<^verbatim>\<open>stages[1:]\<close> with index \<open>t\<close>
  and a current page \<open>cur\<close> of the flipbook, \<^verbatim>\<open>set_stage\<close> is the write of the label on the current page, the
  backward pass started at \<open>t - 1\<close>, and then \<^verbatim>\<open>update_widget\<close>.  The backward pass raises
  nothing and touches only pages strictly before \<open>cur\<close>.  For such a page \<open>j\<close> let \<open>y\<close> be
  the youngest-allowed index when \<open>j\<close> is reached, the pages \<open>cur - 1, \<dots>, j + 1\<close> visited
  before it: \<open>y\<close> is a stage index not above \<open>t - 1\<close>; if the position of page \<open>j\<close> is
  strictly less than \<open>y\<close> the page is left as it is, otherwise its label becomes
  \<^verbatim>\<open>stages[y]\<close> and nothing else of it changes.  A page without a label counts as
  \<^verbatim>\<open>len(stages)\<close>: it never lowers the youngest-allowed index, and it always receives the
  label \<^verbatim>\<open>stages[y]\<close>, so its counted position does go down in this pass.  When the
  current page is the first page, the pass does nothing.
\<close>

theorem backward_pass_of_set_stage:
  assumes "StageField_init nm stgs trns sc cyc = Inr (f, cyc')"
    and "stage \<in> set (tl (stages f))"
    and "cur < length (pages g)"
  shows "\<exists>t ps'.
           stage_indices f stage = Some t
         \<and> backward_pass f (t - 1) cur ((pages g)[cur := set_annotation f stage (pages g ! cur)])
             = (None, ps')
         \<and> set_stage f stage cur g = update_widget f (Some stage) (g\<lparr>pages := ps'\<rparr>)
         \<and> length ps' = length (pages g)
         \<and> ps' ! cur = set_annotation f stage (pages g ! cur)
         \<and> (\<forall>j. cur < j \<and> j < length (pages g) \<longrightarrow> ps' ! j = pages g ! j)
         \<and> (\<forall>j<cur.
               0 \<le> youngest_allowed f (t - 1) cur (pages g) j
             \<and> youngest_allowed f (t - 1) cur (pages g) j \<le> t - 1
             \<and> ps' ! j =
                 (if page_stage_i_high f (pages g ! j) < youngest_allowed f (t - 1) cur (pages g) j
                  then pages g ! j
                  else set_annotation f
                         (stages f ! nat (youngest_allowed f (t - 1) cur (pages g) j)) (pages g ! j))
             \<and> (get_annotation f (pages g ! j) = None \<longrightarrow>
                  get_annotation f (ps' ! j)
                    = Some (stages f ! nat (youngest_allowed f (t - 1) cur (pages g) j))))
         \<and> (cur = 0 \<longrightarrow> ps' = (pages g)[0 := set_annotation f stage (pages g ! 0)])"
proof -
  note ok = StageField_init_field_ok [OF assms(1)]
  from ok assms(2) obtain t where t: "stage_indices f stage = Some t"
    and t1: "1 \<le> t" and tl: "t < int (length (stages f))"
    by (rule target_stage_index)
  define ps1 where "ps1 = (pages g)[cur := set_annotation f stage (pages g ! cur)]"
  have y: "0 \<le> t - 1" "t - 1 < int (length (stages f))" using t1 tl by simp_all
  have fb: "cur \<le> length ps1" using assms(3) by (simp add: ps1_def)
  from backward_pass_nth [OF ok y fb] obtain ps'
    where run: "backward_pass f (t - 1) cur ps1 = (None, ps')"
      and len: "length ps' = length ps1"
      and after: "\<forall>j. cur \<le> j \<and> j < length ps1 \<longrightarrow> ps' ! j = ps1 ! j"
      and before: "\<forall>j<cur.
                 ps' ! j =
                   (if page_stage_i_high f (ps1 ! j) < youngest_allowed f (t - 1) cur ps1 j
                    then ps1 ! j
                    else set_annotation f (stages f ! nat (youngest_allowed f (t - 1) cur ps1 j))
                           (ps1 ! j))"
    by blast
  have c1: "set_stage f stage cur g = update_widget f (Some stage) (g\<lparr>pages := ps'\<rparr>)"
    using assms(3) run by (simp add: set_stage_def Let_def t ps1_def)
  have c2: "length ps' = length (pages g)" by (simp add: len ps1_def)
  have c3: "ps' ! cur = set_annotation f stage (pages g ! cur)"
    using after assms(3) by (simp add: ps1_def)
  have c4: "\<forall>j. cur < j \<and> j < length (pages g) \<longrightarrow> ps' ! j = pages g ! j"
    using after by (simp add: ps1_def)
  have c5: "0 \<le> youngest_allowed f (t - 1) cur (pages g) j
             \<and> youngest_allowed f (t - 1) cur (pages g) j \<le> t - 1
             \<and> ps' ! j =
                 (if page_stage_i_high f (pages g ! j) < youngest_allowed f (t - 1) cur (pages g) j
                  then pages g ! j
                  else set_annotation f
                         (stages f ! nat (youngest_allowed f (t - 1) cur (pages g) j)) (pages g ! j))
             \<and> (get_annotation f (pages g ! j) = None \<longrightarrow>
                  get_annotation f (ps' ! j)
                    = Some (stages f ! nat (youngest_allowed f (t - 1) cur (pages g) j)))"
    if j: "j < cur" for j
  proof -
    let ?y = "youngest_allowed f (t - 1) cur (pages g) j"
    note b = youngest_allowed_bounds [OF ok y(1), of cur "pages g" j]
    from before j have n: "ps' ! j =
        (if page_stage_i_high f (pages g ! j) < ?y then pages g ! j
         else set_annotation f (stages f ! nat ?y) (pages g ! j))"
      by (simp add: ps1_def youngest_allowed_update)
    have "get_annotation f (ps' ! j) = Some (stages f ! nat ?y)"
      if u: "get_annotation f (pages g ! j) = None"
    proof -
      from u have "page_stage_i_high f (pages g ! j) = int (length (stages f))"
        by (simp add: page_stage_i_high_def stage_index_get_def)
      with b(2) tl have "\<not> page_stage_i_high f (pages g ! j) < ?y" by simp
      with n show ?thesis by simp
    qed
    with b n show ?thesis by blast
  qed
  have c6: "cur = 0 \<longrightarrow> ps' = (pages g)[0 := set_annotation f stage (pages g ! 0)]"
    using run by (auto simp: backward_pass_def ps1_def)
  from t run [unfolded ps1_def] c1 c2 c3 c4 c5 c6 show ?thesis by blast
qed

theorem backward_pass_of_set_stage_witness:
  "''adult'' \<in> set (tl (stages default_field)) \<and> 3 < length (pages review_gui)
   \<and> (\<exists>ps'. backward_pass default_field 1 3
               ((pages review_gui)[3 := set_annotation default_field ''adult'' (pages review_gui ! 3)])
             = (None, ps')
          \<and> ps' ! 2 = set_annotation default_field ''larva'' unset_page
          \<and> ps' ! 1 = staged_page ''egg''
          \<and> ps' ! 0 = set_annotation default_field ''egg'' (staged_page ''adult''))"
proof -
  have mem: "''adult'' \<in> set (tl (stages default_field))"
    by (simp add: default_field_def)
  have cur: "3 < length (pages review_gui)"
    by (simp add: review_gui_def)
  from backward_pass_of_set_stage [OF default_field_init mem cur] obtain t ps'
    where t: "stage_indices default_field ''adult'' = Some t"
      and run: "backward_pass default_field (t - 1) 3
                 ((pages review_gui)[3 := set_annotation default_field ''adult'' (pages review_gui ! 3)])
                = (None, ps')"
      and before: "\<forall>j<3.
               0 \<le> youngest_allowed default_field (t - 1) 3 (pages review_gui) j
             \<and> youngest_allowed default_field (t - 1) 3 (pages review_gui) j \<le> t - 1
             \<and> ps' ! j =
                 (if page_stage_i_high default_field (pages review_gui ! j)
                       < youngest_allowed default_field (t - 1) 3 (pages review_gui) j
                  then pages review_gui ! j
                  else set_annotation default_field
                         (stages default_field
                            ! nat (youngest_allowed default_field (t - 1) 3 (pages review_gui) j))
                         (pages review_gui ! j))
             \<and> (get_annotation default_field (pages review_gui ! j) = None \<longrightarrow>
                  get_annotation default_field (ps' ! j)
                    = Some (stages default_field
                              ! nat (youngest_allowed default_field (t - 1) 3 (pages review_gui) j)))"
    by blast
  have "stage_indices default_field ''adult'' = Some 2" by code_simp
  with t have t2: "t - 1 = 1" by simp
  have y2: "youngest_allowed default_field 1 3 (pages review_gui) 2 = 1"
    and y1: "youngest_allowed default_field 1 3 (pages review_gui) (Suc 0) = 1"
    and y0: "youngest_allowed default_field 1 3 (pages review_gui) 0 = 0"
    by code_simp+
  have h2: "page_stage_i_high default_field (pages review_gui ! 2) = 4"
    and h1: "page_stage_i_high default_field (pages review_gui ! Suc 0) = 0"
    and h0: "page_stage_i_high default_field (pages review_gui ! 0) = 2"
    by code_simp+
  have s: "stages default_field ! nat 1 = ''larva''" "stages default_field ! nat 0 = ''egg''"
    by (simp_all add: default_field_def)
  have p: "pages review_gui ! 2 = unset_page" "pages review_gui ! 1 = staged_page ''egg''"
    "pages review_gui ! 0 = staged_page ''adult''"
    by (simp_all add: review_gui_def)
  note b = before [unfolded t2, rule_format]
  have "ps' ! 2 = set_annotation default_field (stages default_field ! nat 1) (pages review_gui ! 2)"
    using b [of 2] by (simp add: y2 h2)
  then have r2: "ps' ! 2 = set_annotation default_field ''larva'' unset_page"
    by (simp only: s p)
  have "ps' ! 1 = pages review_gui ! 1"
    using b [of "Suc 0"] by (simp add: y1 h1)
  then have r1: "ps' ! 1 = staged_page ''egg''"
    by (simp only: p)
  have "ps' ! 0 = set_annotation default_field (stages default_field ! nat 0) (pages review_gui ! 0)"
    using b [of 0] by (simp add: y0 h0)
  then have r0: "ps' ! 0 = set_annotation default_field ''egg'' (staged_page ''adult'')"
    by (simp only: s p)
  from r2 r1 r0 mem cur run [unfolded t2] show ?thesis by blast
qed

text \<open>
  Five pages without a label, \<^verbatim>\<open>set_stage('adult')\<close> on the third.  The second page has no
  label and counts as position 4, above every stage; the backward pass overwrites it with
  larva, position 1.  A page without a label is lowered by this pass.
\<close>

theorem backward_pass_unset_page_counterexample:
  "get_annotation default_field (replicate 5 unset_page ! 1) = None
   \<and> page_stage_i_high default_field (replicate 5 unset_page ! 1) = 4
   \<and> stage_indices default_field ''adult'' = Some 2
   \<and> fst (backward_pass default_field (2 - 1) 2
            ((replicate 5 unset_page)[2 := set_annotation default_field ''adult'' unset_page]))
       = None
   \<and> get_annotation default_field
        (snd (backward_pass default_field (2 - 1) 2
               ((replicate 5 unset_page)[2 := set_annotation default_field ''adult'' unset_page]))
          ! 1)
       = Some ''larva''
   \<and> page_stage_i_high default_field
        (snd (backward_pass default_field (2 - 1) 2
               ((replicate 5 unset_page)[2 := set_annotation default_field ''adult'' unset_page]))
          ! 1)
       = 1"
  by code_simp

section \<open>Series of set\_stage calls\<close>

lemma update_pages_from_stage:
  assumes ok: "field_ok f"
  shows "seen_index f oldest \<Longrightarrow> 0 \<le> oldest \<Longrightarrow> \<exists>ps'. update_pages f oldest ps = (None, ps')"
proof (induction ps arbitrary: oldest)
  case Nil
  then show ?case by simp
next
  case (Cons p ps)
  obtain e o1 p1 where s: "update_page f oldest p = (e, o1, p1)"
    by (cases "update_page f oldest p")
  have e: "e = None"
  proof (cases e)
    case (Some err)
    from update_page_raise(2) [OF ok Cons.prems(1) s [unfolded Some]] Cons.prems(2)
    show ?thesis by simp
  qed simp
  note st = update_page_step [OF ok Cons.prems(1) s [unfolded e]]
  from st(2) Cons.prems(2) have "0 \<le> o1" by simp
  from Cons.IH [OF st(1) this] obtain ps' where "update_pages f o1 ps = (None, ps')" ..
  then show ?case by (simp add: s e)
qed

lemma update_pages_known_prefix:
  assumes ok: "field_ok f"
  shows "seen_index f oldest \<Longrightarrow> qs \<noteq> [] \<Longrightarrow>
         \<forall>q\<in>set qs. \<exists>s. get_annotation f q = Some s \<and> s \<in> set (stages f) \<Longrightarrow>
         \<exists>ps'. update_pages f oldest (qs @ rest) = (None, ps')"
proof (induction qs arbitrary: oldest)
  case Nil
  then show ?case by simp
next
  case (Cons q qs)
  from Cons.prems(3) obtain s where s: "get_annotation f q = Some s" "s \<in> set (stages f)"
    by auto
  from field_ok_member [OF ok s(2)] obtain i where i: "stage_indices f s = Some i" ..
  note ix = field_ok_index(1) [OF ok i]
  obtain e o1 p1 where u: "update_page f oldest q = (e, o1, p1)"
    by (cases "update_page f oldest q")
  have e: "e = None"
  proof (cases e)
    case (Some err)
    from update_page_raise(2) [OF ok Cons.prems(1) u [unfolded Some]]
    have o: "oldest = - 1" .
    from field_ok_index(6) [OF ok i] obtain c where c: "colors f s = Some c" ..
    have "update_page f oldest q = (None, i, q\<lparr>color := Some c\<rparr>)"
      using ix by (simp add: o update_page_def Let_def stage_index_get_def s i set_page_color_def c)
    with u Some show ?thesis by simp
  qed simp
  note st = update_page_step [OF ok Cons.prems(1) u [unfolded e]]
  have "page_stage_i_low f q = i"
    by (simp add: page_stage_i_low_def stage_index_get_def s i)
  with st(2) ix have o1: "0 \<le> o1" by simp
  from update_pages_from_stage [OF ok st(1) o1, of "qs @ rest"]
  obtain ps' where "update_pages f o1 (qs @ rest) = (None, ps')" ..
  then show ?case by (simp add: u e)
qed

lemma update_pages_stage_order:
  assumes ok: "field_ok f" and run: "update_pages f (- 1) ps = (None, ps')"
  shows "stage_order f ps'"
proof -
  note shape = update_pages_sorted [OF ok seen_index_start run]
  from shape have srt: "sorted (map (page_stage_i_low f) ps')" by simp
  show ?thesis
    unfolding stage_order_def
  proof (intro allI impI)
    fix i a b
    assume i: "Suc i < length ps'"
      and a: "get_annotation f (ps' ! i) = Some a"
      and b: "get_annotation f (ps' ! Suc i) = Some b"
    from shape i a obtain m where m: "stage_indices f a = Some m"
      by (metis Suc_lessD nth_mem not_None_eq)
    from shape i b obtain n where n: "stage_indices f b = Some n"
      by (metis nth_mem not_None_eq)
    from srt i have "page_stage_i_low f (ps' ! i) \<le> page_stage_i_low f (ps' ! Suc i)"
      by (simp add: sorted_iff_nth_mono)
    then have "m \<le> n"
      by (simp add: page_stage_i_low_def stage_index_get_def a b m n)
    with m n show "\<exists>m n. stage_indices f a = Some m \<and> stage_indices f b = Some n \<and> m \<le> n"
      by blast
  qed
qed

lemma set_stage_backward:
  assumes ok: "field_ok f" and mem: "stage \<in> set (tl (stages f))"
    and cur: "cur < length (pages g)"
  shows "\<exists>ps'. set_stage f stage cur g = update_widget f (Some stage) (g\<lparr>pages := ps'\<rparr>)
           \<and> length ps' = length (pages g)
           \<and> (\<forall>j\<le>cur. \<exists>s. get_annotation f (ps' ! j) = Some s \<and> s \<in> set (stages f))"
proof -
  from ok mem obtain t where t: "stage_indices f stage = Some t"
    and t1: "1 \<le> t" and tl: "t < int (length (stages f))"
    by (rule target_stage_index)
  define ps1 where "ps1 = (pages g)[cur := set_annotation f stage (pages g ! cur)]"
  have y: "0 \<le> t - 1" "t - 1 < int (length (stages f))" using t1 tl by simp_all
  have fb: "cur \<le> length ps1" using cur by (simp add: ps1_def)
  from backward_pass_nth [OF ok y fb] obtain ps'
    where run: "backward_pass f (t - 1) cur ps1 = (None, ps')"
      and len: "length ps' = length ps1"
      and after: "\<forall>j. cur \<le> j \<and> j < length ps1 \<longrightarrow> ps' ! j = ps1 ! j"
      and before: "\<forall>j<cur.
                 ps' ! j =
                   (if page_stage_i_high f (ps1 ! j) < youngest_allowed f (t - 1) cur ps1 j
                    then ps1 ! j
                    else set_annotation f (stages f ! nat (youngest_allowed f (t - 1) cur ps1 j))
                           (ps1 ! j))"
    by blast
  have c1: "set_stage f stage cur g = update_widget f (Some stage) (g\<lparr>pages := ps'\<rparr>)"
    using cur run by (simp add: set_stage_def Let_def t ps1_def)
  have c2: "length ps' = length (pages g)" by (simp add: len ps1_def)
  have c3: "\<exists>s. get_annotation f (ps' ! j) = Some s \<and> s \<in> set (stages f)" if j: "j \<le> cur" for j
  proof (cases "j = cur")
    case True
    with after cur have "ps' ! j = set_annotation f stage (pages g ! cur)"
      by (simp add: ps1_def)
    moreover from mem have "stage \<in> set (stages f)" by (cases "stages f") auto
    ultimately show ?thesis by simp
  next
    case False
    with j have jc: "j < cur" by simp
    let ?y = "youngest_allowed f (t - 1) cur ps1 j"
    note b = youngest_allowed_bounds [OF ok y(1), of cur ps1 j]
    show ?thesis
    proof (cases "page_stage_i_high f (ps1 ! j) < ?y")
      case True
      with before jc have same: "ps' ! j = ps1 ! j" by simp
      from True b(2) tl have lt: "page_stage_i_high f (ps1 ! j) < int (length (stages f))"
        by simp
      then obtain s i where "get_annotation f (ps1 ! j) = Some s" "stage_indices f s = Some i"
        by (auto simp: page_stage_i_high_def stage_index_get_def split: option.splits)
      with field_ok_index(5) [OF ok this(2)] same show ?thesis by simp
    next
      case False
      with before jc have "ps' ! j = set_annotation f (stages f ! nat ?y) (ps1 ! j)" by simp
      moreover from b tl have "nat ?y < length (stages f)" by simp
      ultimately show ?thesis by simp
    qed
  qed
  from c1 c2 c3 show ?thesis by blast
qed

lemma set_stage_returns:
  assumes ok: "field_ok f" and mem: "stage \<in> set (tl (stages f))"
    and cur: "cur < length (pages g)"
  shows "\<exists>g'. set_stage f stage cur g = (None, g') \<and> length (pages g') = length (pages g)
           \<and> stage_order f (pages g')"
proof -
  from set_stage_backward [OF assms] obtain ps'
    where unfold: "set_stage f stage cur g = update_widget f (Some stage) (g\<lparr>pages := ps'\<rparr>)"
      and len: "length ps' = length (pages g)"
      and known: "\<forall>j\<le>cur. \<exists>s. get_annotation f (ps' ! j) = Some s \<and> s \<in> set (stages f)"
    by blast
  define qs where "qs = take (Suc cur) ps'"
  have ne: "qs \<noteq> []" using cur len by (auto simp: qs_def)
  have kn: "\<forall>q\<in>set qs. \<exists>s. get_annotation f q = Some s \<and> s \<in> set (stages f)"
  proof
    fix q assume "q \<in> set qs"
    then obtain j where "j < length qs" "qs ! j = q" by (auto simp: in_set_conv_nth)
    then have "j \<le> cur" "ps' ! j = q" by (simp_all add: qs_def)
    with known show "\<exists>s. get_annotation f q = Some s \<and> s \<in> set (stages f)" by auto
  qed
  from update_pages_known_prefix [OF ok seen_index_start ne kn, of "drop (Suc cur) ps'"]
  obtain ps'' where run: "update_pages f (- 1) ps' = (None, ps'')"
    by (auto simp: qs_def)
  from mem have "stage \<in> set (stages f)" by (cases "stages f") auto
  then have res: "set_stage f stage cur g = (None, \<lparr>pages = ps'', label_text = stage\<rparr>)"
    by (simp add: unfold update_widget_def run)
  moreover have "length ps'' = length (pages g)"
    using update_pages_length [OF run] len by simp
  moreover have "stage_order f ps''"
    by (rule update_pages_stage_order [OF ok run])
  ultimately show ?thesis by simp
qed

lemma set_stages_returns:
  assumes ok: "field_ok f"
  shows "\<forall>(cur, stage)\<in>set calls. cur < length (pages g) \<and> stage \<in> set (tl (stages f)) \<Longrightarrow>
         calls \<noteq> [] \<or> stage_order f (pages g) \<Longrightarrow>
         \<exists>g'. set_stages f calls g = (None, g') \<and> length (pages g') = length (pages g)
           \<and> stage_order f (pages g')"
proof (induction calls arbitrary: g)
  case Nil
  then show ?case by simp
next
  case (Cons c calls)
  obtain cur stage where c: "c = (cur, stage)" by (cases c)
  from Cons.prems(1) have cur: "cur < length (pages g)" and mem: "stage \<in> set (tl (stages f))"
    by (simp_all add: c)
  from set_stage_returns [OF ok mem cur] obtain g1
    where s: "set_stage f stage cur g = (None, g1)"
      and len: "length (pages g1) = length (pages g)"
      and ord: "stage_order f (pages g1)"
    by blast
  from Cons.prems(1) len
  have "\<forall>(cur, stage)\<in>set calls. cur < length (pages g1) \<and> stage \<in> set (tl (stages f))"
    by auto
  from Cons.IH [OF this] ord obtain g'
    where "set_stages f calls g1 = (None, g')" "length (pages g') = length (pages g1)"
      "stage_order f (pages g')"
    by blast
  with s len show ?case by (simp add: c)
qed

text \<open>
  Claim C1.  Take any flipbook and any series of \<^verbatim>\<open>set_stage\<close> calls, each with a target
  from \<^verbatim>\<open>stages[1:]\<close> and a current page of the flipbook.  Every call returns (none raises,
  whatever the labels were before), the flipbook keeps its length, and after the calls the
  labels are in stage order: of two adjacent pages that both have a label, the position of
  the first is at most the position of the second.  The order is established by the first
  call; with no call at all the labels are the given ones, so the statement then is that
  an order already there stays.
\<close>

theorem stage_order_after_set_stage_calls:
  assumes "StageField_init nm stgs trns sc cyc = Inr (f, cyc')"
    and "\<forall>(cur, stage)\<in>set calls. cur < length (pages g) \<and> stage \<in> set (tl (stages f))"
    and "calls \<noteq> [] \<or> stage_order f (pages g)"
  shows "\<exists>g'. set_stages f calls g = (None, g') \<and> length (pages g') = length (pages g)
           \<and> stage_order f (pages g')"
  using set_stages_returns [OF StageField_init_field_ok [OF assms(1)] assms(2) assms(3)] .

theorem stage_order_after_set_stage_calls_witness:
  "map (get_annotation default_field) (pages review_gui) = [Some ''adult'', Some ''egg'', None, None]
   \<and> (\<exists>g'. set_stages default_field [(2, ''adult''), (0, ''larva'')] review_gui = (None, g')
          \<and> stage_order default_field (pages g')
          \<and> map (get_annotation default_field) (pages g')
              = [Some ''larva'', Some ''larva'', Some ''adult'', Some ''adult''])"
proof -
  have calls: "\<forall>(cur, stage)\<in>set [(2, ''adult''), (0, ''larva'')].
      cur < length (pages review_gui) \<and> stage \<in> set (tl (stages default_field))"
    by (simp add: review_gui_def default_field_def)
  have ne: "[(2::nat, ''adult''), (0, ''larva'')] \<noteq> [] \<or> stage_order default_field (pages review_gui)"
    by simp
  from stage_order_after_set_stage_calls [OF default_field_init calls ne] obtain g'
    where run: "set_stages default_field [(2, ''adult''), (0, ''larva'')] review_gui = (None, g')"
      and ord: "stage_order default_field (pages g')"
    by blast
  have "map (get_annotation default_field)
          (pages (snd (set_stages default_field [(2, ''adult''), (0, ''larva'')] review_gui)))
        = [Some ''larva'', Some ''larva'', Some ''adult'', Some ''adult'']"
    by code_simp
  with run have labels: "map (get_annotation default_field) (pages g')
        = [Some ''larva'', Some ''larva'', Some ''adult'', Some ''adult'']"
    by simp
  have start: "map (get_annotation default_field) (pages review_gui)
        = [Some ''adult'', Some ''egg'', None, None]"
    by code_simp
  show ?thesis
    by (intro conjI exI [of _ g']) (rule start run ord labels)+
qed

end
